theory Spec2Isabelle
  imports Main "HOL-Library.Word" "HOL-Library.Sublist" "HOL-Library.Code_Target_Numeral"
begin

unbundle bit_operations_syntax

section \<open>Memory, pointers and the container\<close>

text \<open>
  The primitive algorithms of \<^verbatim>\<open>constant_string_detail.hpp\<close> work on raw pointers: they
  compare pointers (\<^verbatim>\<open>a == b\<close>, \<^verbatim>\<open>dest < src\<close>), test them against \<^verbatim>\<open>nullptr\<close>, index
  them and write through them. The model is therefore one flat store of character units,
  addressed by natural numbers; a pointer that may be null is a \<open>ptr\<close>, a pointer into a
  buffer is its address. Pointer arithmetic \<^verbatim>\<open>p + i\<close> is addition of addresses.

  \<^verbatim>\<open>std::size_t\<close> values (lengths, positions, counts) are natural numbers. None of the
  index computations below can wrap around for spans that exist in memory; the one place
  where the width of \<^verbatim>\<open>std::size_t\<close> shows is the not-found value
  \<^verbatim>\<open>static_cast<std::size_t>(-1)\<close>, which is \<open>2 ^ 64 - 1\<close>, and the hash, which is computed
  on 64-bit words.
\<close>

type_synonym 'c mem = "nat \<Rightarrow> 'c"

datatype ptr = Null | Addr nat

text \<open>The units \<^verbatim>\<open>p[0], ..., p[n - 1]\<close> of the store.\<close>

definition span :: "'c mem \<Rightarrow> nat \<Rightarrow> nat \<Rightarrow> 'c list" where
  "span m p n = map (\<lambda>k. m (p + k)) [0..<n]"

text \<open>A store holding the given units from address 0 on, and the zero unit elsewhere.\<close>

definition mem_of :: "('c::zero) list \<Rightarrow> 'c mem" where
  "mem_of xs = (\<lambda>i. if i < length xs then xs ! i else 0)"

text \<open>\<^verbatim>\<open>npos\<close>, the value \<^verbatim>\<open>static_cast<std::size_t>(-1)\<close>.\<close>

definition npos :: nat where
  "npos = 2 ^ 64 - 1"

text \<open>
  \<^verbatim>\<open>class string<CharT, N>\<close>: the buffer \<^verbatim>\<open>data_\<close> (here the address of its first unit
  in the store), the static capacity \<^verbatim>\<open>N\<close> and the length \<^verbatim>\<open>len_\<close>. (Isabelle does not
  accept names that end in an underscore.)
\<close>

record zstring =
  data :: nat
  capacity :: nat
  len :: nat

definition content :: "'c mem \<Rightarrow> zstring \<Rightarrow> 'c list" where
  "content m s = span m (data s) (len s)"

section \<open>String length\<close>

text \<open>
  \<^verbatim>\<open>detail::strlen\<close>. The scan \<^verbatim>\<open>while (*p != CharT{}) ++p;\<close> has no bound: on a store
  without a terminator it does not return, which is the value \<open>None\<close>.
\<close>

partial_function (option) strlen_scan :: "('c::zero) mem \<Rightarrow> nat \<Rightarrow> nat option" where
  "strlen_scan m p = (if m p \<noteq> 0 then strlen_scan m (p + 1) else Some p)"

declare strlen_scan.simps [code]

definition strlen :: "('c::zero) mem \<Rightarrow> ptr \<Rightarrow> nat option" where
  "strlen m str =
     (case str of
        Null \<Rightarrow> Some 0
      | Addr s \<Rightarrow> map_option (\<lambda>p. p - s) (strlen_scan m s))"

section \<open>Comparison\<close>

text \<open>The loop of \<^verbatim>\<open>detail::strcmp\<close>, from index \<open>i\<close> on.\<close>

function strcmp_loop :: "('c::linorder) mem \<Rightarrow> nat \<Rightarrow> nat \<Rightarrow> nat \<Rightarrow> nat \<Rightarrow> int" where
  "strcmp_loop m a b n i =
     (if i < n then
        (if m (a + i) \<noteq> m (b + i) then (if m (a + i) < m (b + i) then - 1 else 1)
         else strcmp_loop m a b n (i + 1))
      else 0)"
  by pat_completeness auto
termination
  by (relation "measure (\<lambda>(m, a, b, n, i). n - i)") auto

declare strcmp_loop.simps [simp del]

definition strcmp :: "('c::linorder) mem \<Rightarrow> ptr \<Rightarrow> ptr \<Rightarrow> nat \<Rightarrow> int" where
  "strcmp m a b n =
     (if a = b then 0
      else case a of
        Null \<Rightarrow> - 1
      | Addr pa \<Rightarrow>
          (case b of
             Null \<Rightarrow> 1
           | Addr pb \<Rightarrow> strcmp_loop m pa pb n 0))"

definition strcmp_full :: "('c::linorder) mem \<Rightarrow> ptr \<Rightarrow> nat \<Rightarrow> ptr \<Rightarrow> nat \<Rightarrow> int" where
  "strcmp_full m a len_a b len_b =
     (let min_len = (if len_a < len_b then len_a else len_b);
          result = strcmp m a b min_len
      in if result \<noteq> 0 then result
         else if len_a < len_b then - 1
         else if len_a > len_b then 1
         else 0)"

text \<open>\<^verbatim>\<open>string::compare(const string<CharT, M>&)\<close>.\<close>

definition compare :: "('c::linorder) mem \<Rightarrow> zstring \<Rightarrow> zstring \<Rightarrow> int" where
  "compare m s other = strcmp_full m (Addr (data s)) (len s) (Addr (data other)) (len other)"

text \<open>
  \<^verbatim>\<open>string::compare(const CharT*)\<close>. It does not return when \<^verbatim>\<open>strlen\<close> does not.
\<close>

definition compare_cstr :: "('c::{zero,linorder}) mem \<Rightarrow> zstring \<Rightarrow> ptr \<Rightarrow> int option" where
  "compare_cstr m s str =
     (if str = Null then Some (if len s > 0 then 1 else 0)
      else map_option (\<lambda>n. strcmp_full m (Addr (data s)) (len s) str n) (strlen m str))"

text \<open>\<^verbatim>\<open>string::operator==(const string<CharT, M>&)\<close>.\<close>

definition operator_eq :: "('c::linorder) mem \<Rightarrow> zstring \<Rightarrow> zstring \<Rightarrow> bool" where
  "operator_eq m s other = (len s = len other \<and> compare m s other = 0)"

text \<open>\<^verbatim>\<open>std::strong_ordering\<close> and \<^verbatim>\<open>string::operator<=>(const string<CharT, M>&)\<close>.\<close>

datatype strong_ordering = Less | Equal | Greater

definition operator_spaceship :: "('c::linorder) mem \<Rightarrow> zstring \<Rightarrow> zstring \<Rightarrow> strong_ordering" where
  "operator_spaceship m s other =
     (let cmp = compare m s other
      in if cmp < 0 then Less else if cmp > 0 then Greater else Equal)"

section \<open>Character search\<close>

text \<open>The loop of \<^verbatim>\<open>detail::find_char\<close>, from index \<open>i\<close> on.\<close>

function find_char_loop :: "'c mem \<Rightarrow> nat \<Rightarrow> nat \<Rightarrow> 'c \<Rightarrow> nat \<Rightarrow> nat" where
  "find_char_loop m str n ch i =
     (if i < n then (if m (str + i) = ch then i else find_char_loop m str n ch (i + 1))
      else npos)"
  by pat_completeness auto
termination
  by (relation "measure (\<lambda>(m, str, n, ch, i). n - i)") auto

declare find_char_loop.simps [simp del]

definition find_char :: "'c mem \<Rightarrow> nat \<Rightarrow> nat \<Rightarrow> 'c \<Rightarrow> nat \<Rightarrow> nat" where
  "find_char m str n ch pos = (if pos \<ge> n then npos else find_char_loop m str n ch pos)"

section \<open>Memory operations\<close>

text \<open>
  The two loops of \<^verbatim>\<open>detail::memmove_string\<close>. The forward loop runs \<open>i\<close> from 0 up to
  \<open>count\<close>; the backward loop runs \<open>i\<close> from \<open>count\<close> down to 1 and moves unit \<open>i - 1\<close>.
\<close>

function copy_forward :: "'c mem \<Rightarrow> nat \<Rightarrow> nat \<Rightarrow> nat \<Rightarrow> nat \<Rightarrow> 'c mem" where
  "copy_forward m dest src count i =
     (if i < count then copy_forward (m(dest + i := m (src + i))) dest src count (i + 1)
      else m)"
  by pat_completeness auto
termination
  by (relation "measure (\<lambda>(m, dest, src, count, i). count - i)") auto

declare copy_forward.simps [simp del]

fun copy_backward :: "'c mem \<Rightarrow> nat \<Rightarrow> nat \<Rightarrow> nat \<Rightarrow> 'c mem" where
  "copy_backward m dest src 0 = m"
| "copy_backward m dest src (Suc i) = copy_backward (m(dest + i := m (src + i))) dest src i"

definition memmove_string :: "'c mem \<Rightarrow> nat \<Rightarrow> nat \<Rightarrow> nat \<Rightarrow> 'c mem" where
  "memmove_string m dest src count =
     (if dest = src \<or> count = 0 then m
      else if dest < src then copy_forward m dest src count 0
      else copy_backward m dest src count)"

section \<open>Substring search\<close>

text \<open>
  The inner loop of \<^verbatim>\<open>detail::find_substring\<close> (the value of \<^verbatim>\<open>match\<close> when it ends)
  and the outer loop, from index \<open>i\<close> on.
\<close>

function match_loop :: "'c mem \<Rightarrow> nat \<Rightarrow> nat \<Rightarrow> nat \<Rightarrow> nat \<Rightarrow> nat \<Rightarrow> bool" where
  "match_loop m haystack needle needle_len i j =
     (if j < needle_len then
        (if m (haystack + (i + j)) \<noteq> m (needle + j) then False
         else match_loop m haystack needle needle_len i (j + 1))
      else True)"
  by pat_completeness auto
termination
  by (relation "measure (\<lambda>(m, haystack, needle, needle_len, i, j). needle_len - j)") auto

declare match_loop.simps [simp del]

function find_substring_loop ::
    "'c mem \<Rightarrow> nat \<Rightarrow> nat \<Rightarrow> nat \<Rightarrow> nat \<Rightarrow> nat \<Rightarrow> nat" where
  "find_substring_loop m haystack haystack_len needle needle_len i =
     (if i \<le> haystack_len - needle_len then
        (if match_loop m haystack needle needle_len i 0 then i
         else find_substring_loop m haystack haystack_len needle needle_len (i + 1))
      else npos)"
  by pat_completeness auto
termination
  by (relation "measure (\<lambda>(m, haystack, haystack_len, needle, needle_len, i).
        haystack_len - needle_len + 1 - i)") auto

declare find_substring_loop.simps [simp del]

definition find_substring :: "'c mem \<Rightarrow> nat \<Rightarrow> nat \<Rightarrow> nat \<Rightarrow> nat \<Rightarrow> nat \<Rightarrow> nat" where
  "find_substring m haystack haystack_len needle needle_len pos =
     (if needle_len = 0 then (if pos \<le> haystack_len then pos else npos)
      else if needle_len > haystack_len then npos
      else if pos > haystack_len - needle_len then npos
      else find_substring_loop m haystack haystack_len needle needle_len pos)"

text \<open>
  The needle occurs in the haystack at index \<open>i\<close>: it fits there and the units agree.
\<close>

definition occurs_at :: "'c mem \<Rightarrow> nat \<Rightarrow> nat \<Rightarrow> nat \<Rightarrow> nat \<Rightarrow> nat \<Rightarrow> bool" where
  "occurs_at m haystack haystack_len needle needle_len i =
     (i + needle_len \<le> haystack_len \<and> span m (haystack + i) needle_len = span m needle needle_len)"

section \<open>Hashing\<close>

definition FNV_OFFSET :: "64 word" where
  "FNV_OFFSET = 14695981039346656037"

definition FNV_PRIME :: "64 word" where
  "FNV_PRIME = 1099511628211"

text \<open>
  The loop of \<^verbatim>\<open>detail::hash_fnv1a\<close>. A character unit is a word of any width;
  \<^verbatim>\<open>static_cast<unsigned char>\<close> keeps its low 8 bits and \<^verbatim>\<open>static_cast<std::size_t>\<close>
  extends them with zeros.
\<close>

function hash_loop :: "('a::len) word mem \<Rightarrow> nat \<Rightarrow> nat \<Rightarrow> nat \<Rightarrow> 64 word \<Rightarrow> 64 word" where
  "hash_loop m str n i hash =
     (if i < n then
        hash_loop m str n (i + 1)
          ((hash XOR (ucast (ucast (m (str + i)) :: 8 word) :: 64 word)) * FNV_PRIME)
      else hash)"
  by pat_completeness auto
termination
  by (relation "measure (\<lambda>(m, str, n, i, hash). n - i)") auto

declare hash_loop.simps [simp del]

definition hash_fnv1a :: "('a::len) word mem \<Rightarrow> nat \<Rightarrow> nat \<Rightarrow> 64 word" where
  "hash_fnv1a m str n = hash_loop m str n 0 FNV_OFFSET"

text \<open>
  The FNV-1a fold as the specification words it, on natural numbers with the reduction
  modulo \<open>2 ^ 64\<close> written out: XOR in the unsigned byte value of the unit, then multiply
  by the prime.
\<close>

definition fnv1a_step :: "nat \<Rightarrow> nat \<Rightarrow> nat" where
  "fnv1a_step h byte = ((h XOR byte) * 1099511628211) mod 2 ^ 64"

definition fnv1a_fold :: "nat list \<Rightarrow> nat" where
  "fnv1a_fold bytes = foldl fnv1a_step 14695981039346656037 bytes"

text \<open>The unsigned byte value of a character unit.\<close>

definition byte_value :: "('a::len) word \<Rightarrow> nat" where
  "byte_value c = unat c mod 256"

section \<open>Integer to text\<close>

text \<open>
  \<^verbatim>\<open>detail::count_digits\<close>, \<^verbatim>\<open>detail::uint_to_chars\<close> and \<^verbatim>\<open>detail::int_to_chars\<close>.
  The unsigned functions only compare with 0, take the remainder and divide by 10, so
  the unsigned value is a natural number, whatever the width of its type. The character
  \<^verbatim>\<open>CharT('0' + d)\<close> is the unit with code \<open>48 + d\<close>, and \<^verbatim>\<open>CharT('-')\<close> has code 45.
\<close>

function count_digits_loop :: "nat \<Rightarrow> nat \<Rightarrow> nat" where
  "count_digits_loop val digits =
     (if val > 0 then count_digits_loop (val div 10) (digits + 1) else digits)"
  by pat_completeness auto
termination
  by (relation "measure (\<lambda>(val, digits). val)") auto

declare count_digits_loop.simps [simp del]

definition count_digits :: "nat \<Rightarrow> nat" where
  "count_digits val = (if val = 0 then 1 else count_digits_loop val 0)"

text \<open>The first loop of \<^verbatim>\<open>uint_to_chars\<close>: the digits, least significant first.\<close>

function digits_loop ::
    "('a::len) word mem \<Rightarrow> nat \<Rightarrow> nat \<Rightarrow> nat \<Rightarrow> nat \<Rightarrow> 'a word mem \<times> nat" where
  "digits_loop m buffer cap temp pos =
     (if temp > 0 \<and> pos < cap then
        digits_loop (m(buffer + pos := of_nat (48 + temp mod 10))) buffer cap (temp div 10) (pos + 1)
      else (m, pos))"
  by pat_completeness auto
termination
  by (relation "measure (\<lambda>(m, buffer, cap, temp, pos). temp)") auto

declare digits_loop.simps [simp del]

text \<open>The second loop of \<^verbatim>\<open>uint_to_chars\<close>: it swaps units \<open>i\<close> and \<open>pos - 1 - i\<close>.\<close>

function reverse_loop :: "'c mem \<Rightarrow> nat \<Rightarrow> nat \<Rightarrow> nat \<Rightarrow> 'c mem" where
  "reverse_loop m buffer pos i =
     (if i < pos div 2 then
        (let tmp = m (buffer + i);
             m1 = m(buffer + i := m (buffer + (pos - 1 - i)));
             m2 = m1(buffer + (pos - 1 - i) := tmp)
         in reverse_loop m2 buffer pos (i + 1))
      else m)"
  by pat_completeness auto
termination
  by (relation "measure (\<lambda>(m, buffer, pos, i). pos div 2 - i)") auto

declare reverse_loop.simps [simp del]

text \<open>The result is the store after the call and the number of characters written.\<close>

definition uint_to_chars ::
    "('a::len) word mem \<Rightarrow> nat \<Rightarrow> nat \<Rightarrow> nat \<Rightarrow> 'a word mem \<times> nat" where
  "uint_to_chars m buffer cap val =
     (if cap = 0 then (m, 0)
      else if val = 0 then (m(buffer := of_nat 48), 1)
      else
        (let (m1, pos) = digits_loop m buffer cap val 0;
             m2 = reverse_loop m1 buffer pos 0
         in (m2, pos)))"

text \<open>
  A signed type \<open>T\<close> of \<open>w\<close> bits holds the integers from \<open>- 2 ^ (w - 1)\<close> to
  \<open>2 ^ (w - 1) - 1\<close>. Signed arithmetic whose result \<open>T\<close> cannot hold is undefined
  behaviour: \<open>signed_result\<close> is then \<open>None\<close>. \<^verbatim>\<open>static_cast<UT>\<close> reduces modulo
  \<open>2 ^ w\<close>, and so does arithmetic on \<open>UT\<close>.
\<close>

definition T_min :: "nat \<Rightarrow> int" where
  "T_min w = - (2 ^ (w - 1))"

definition T_max :: "nat \<Rightarrow> int" where
  "T_max w = 2 ^ (w - 1) - 1"

definition representable :: "nat \<Rightarrow> int \<Rightarrow> bool" where
  "representable w x = (T_min w \<le> x \<and> x \<le> T_max w)"

definition signed_result :: "nat \<Rightarrow> int \<Rightarrow> int option" where
  "signed_result w x = (if representable w x then Some x else None)"

definition to_unsigned :: "nat \<Rightarrow> int \<Rightarrow> nat" where
  "to_unsigned w x = nat (x mod 2 ^ w)"

definition int_to_chars ::
    "nat \<Rightarrow> ('a::len) word mem \<Rightarrow> nat \<Rightarrow> nat \<Rightarrow> int \<Rightarrow> ('a word mem \<times> nat) option" where
  "int_to_chars w m buffer cap val =
     (if cap = 0 then Some (m, 0)
      else if val < 0 then
        (if cap < 2 then Some (m, 0)
         else
           (let m1 = m(buffer := of_nat 45) in
            if val = T_min w then
              (case signed_result w (val + 1) of
                 None \<Rightarrow> None
               | Some t \<Rightarrow>
                   (case signed_result w (- t) of
                      None \<Rightarrow> None
                    | Some u \<Rightarrow>
                        (let uvalue = (to_unsigned w u + 1) mod 2 ^ w;
                             (m2, k) = uint_to_chars m1 (buffer + 1) (cap - 1) uvalue
                         in Some (m2, 1 + k))))
            else
              (case signed_result w (- val) of
                 None \<Rightarrow> None
               | Some v \<Rightarrow>
                   (let (m2, k) = uint_to_chars m1 (buffer + 1) (cap - 1) (to_unsigned w v)
                    in Some (m2, 1 + k)))))
      else
        (let (m2, k) = uint_to_chars m buffer cap (to_unsigned w val)
         in Some (m2, k)))"

text \<open>The characters a conversion has written: the first \<open>k\<close> units of the buffer.\<close>

definition written :: "'c mem \<times> nat \<Rightarrow> nat \<Rightarrow> 'c list" where
  "written r buffer = span (fst r) buffer (snd r)"

definition uint_to_text :: "nat \<Rightarrow> nat \<Rightarrow> 8 word list" where
  "uint_to_text cap val = written (uint_to_chars (mem_of []) 0 cap val) 0"

definition int_to_text :: "nat \<Rightarrow> nat \<Rightarrow> int \<Rightarrow> 8 word list option" where
  "int_to_text w cap val = map_option (\<lambda>r. written r 0) (int_to_chars w (mem_of []) 0 cap val)"

text \<open>
  The base-10 digits of a natural number, most significant first, and the characters
  that stand for them.
\<close>

fun decimal_digits :: "nat \<Rightarrow> nat list" where
  "decimal_digits n = (if n < 10 then [n] else decimal_digits (n div 10) @ [n mod 10])"

declare decimal_digits.simps [simp del]

definition digit_char :: "nat \<Rightarrow> ('a::len) word" where
  "digit_char d = of_nat (48 + d)"

definition decimal :: "nat \<Rightarrow> ('a::len) word list" where
  "decimal n = map digit_char (decimal_digits n)"

section \<open>Search in the container\<close>

text \<open>
  The three overloads of \<^verbatim>\<open>string::find\<close> and of \<^verbatim>\<open>string::contains\<close>: for a raw
  sequence, for another container and for a character. \<^verbatim>\<open>contains\<close> calls \<^verbatim>\<open>find\<close> with
  the default \<^verbatim>\<open>pos = 0\<close>. The overloads for a raw sequence do not return when
  \<^verbatim>\<open>strlen\<close> does not.
\<close>

definition find_cstr :: "('c::zero) mem \<Rightarrow> zstring \<Rightarrow> ptr \<Rightarrow> nat \<Rightarrow> nat option" where
  "find_cstr m s str pos =
     (case str of
        Null \<Rightarrow> Some npos
      | Addr p \<Rightarrow>
          map_option (\<lambda>n. find_substring m (data s) (len s) p n pos) (strlen m str))"

definition find_str :: "'c mem \<Rightarrow> zstring \<Rightarrow> zstring \<Rightarrow> nat \<Rightarrow> nat" where
  "find_str m s str pos = find_substring m (data s) (len s) (data str) (len str) pos"

definition find_ch :: "'c mem \<Rightarrow> zstring \<Rightarrow> 'c \<Rightarrow> nat \<Rightarrow> nat" where
  "find_ch m s ch pos = find_char m (data s) (len s) ch pos"

definition contains_cstr :: "('c::zero) mem \<Rightarrow> zstring \<Rightarrow> ptr \<Rightarrow> bool option" where
  "contains_cstr m s str = map_option (\<lambda>r. r \<noteq> npos) (find_cstr m s str 0)"

definition contains_str :: "'c mem \<Rightarrow> zstring \<Rightarrow> zstring \<Rightarrow> bool" where
  "contains_str m s str = (find_str m s str 0 \<noteq> npos)"

definition contains_ch :: "'c mem \<Rightarrow> zstring \<Rightarrow> 'c \<Rightarrow> bool" where
  "contains_ch m s ch = (find_ch m s ch 0 \<noteq> npos)"

section \<open>Concatenation\<close>

text \<open>
  \<^verbatim>\<open>concat\<close> default-constructs its result and calls \<^verbatim>\<open>append\<close> twice. The file that
  defines the constructor and \<^verbatim>\<open>append\<close> (\<^verbatim>\<open>constant_string_core.hpp\<close>) is not among the
  sources, so both are modelled from the specification.
\<close>

text \<open>
  Modelled from the spec: a bulk write of units into the store, missing with
  \<^verbatim>\<open>append\<close>, which ``writes additional units at the current end''.
\<close>

definition store_span :: "'c mem \<Rightarrow> nat \<Rightarrow> 'c list \<Rightarrow> 'c mem" where
  "store_span m p xs = (\<lambda>i. if p \<le> i \<and> i < p + length xs then xs ! (i - p) else m i)"

text \<open>
  Modelled from the spec: the default constructor of the container, missing from the
  sources. A container is created empty, and \<open>buffer[length]\<close> always holds the
  terminator. Here \<open>r\<close> is the address of the new buffer and \<open>n\<close> the capacity.
\<close>

definition default_string :: "('c::zero) mem \<Rightarrow> nat \<Rightarrow> nat \<Rightarrow> 'c mem \<times> zstring" where
  "default_string m r n = (m(r := 0), \<lparr>data = r, capacity = n, len = 0\<rparr>)"

text \<open>
  Modelled from the spec: \<^verbatim>\<open>string::append(const string<CharT, M>&)\<close>, missing from the
  sources. It writes the additional units at the current end; an operation whose result
  would exceed the capacity writes as much as fits and adjusts the length to the
  resulting size; \<open>buffer[length]\<close> holds the terminator afterwards.
\<close>

definition append_string :: "('c::zero) mem \<Rightarrow> zstring \<Rightarrow> zstring \<Rightarrow> 'c mem \<times> zstring" where
  "append_string m s other =
     (let n = min (len other) (capacity s - len s);
          m1 = store_span m (data s + len s) (span m (data other) n);
          m2 = m1(data s + len s + n := 0)
      in (m2, s\<lparr>len := len s + n\<rparr>))"

text \<open>
  \<^verbatim>\<open>concat\<close>, from the source. The local \<^verbatim>\<open>result\<close> of type \<^verbatim>\<open>string<CharT, N1 + N2>\<close> is a
  new object; \<open>r\<close> is the address of its buffer.
\<close>

definition concat_strings ::
    "('c::zero) mem \<Rightarrow> nat \<Rightarrow> zstring \<Rightarrow> zstring \<Rightarrow> 'c mem \<times> zstring" where
  "concat_strings m r a b =
     (let (m0, result) = default_string m r (capacity a + capacity b);
          (m1, result1) = append_string m0 result a;
          (m2, result2) = append_string m1 result1 b
      in (m2, result2))"

section \<open>Facts about spans\<close>

lemma length_span [simp]: "length (span m p n) = n"
  by (simp add: span_def)

lemma nth_span [simp]: "k < n \<Longrightarrow> span m p n ! k = m (p + k)"
  by (simp add: span_def)

lemma span_eq_iff: "span m p n = span m' q n \<longleftrightarrow> (\<forall>k<n. m (p + k) = m' (q + k))"
  by (simp add: list_eq_iff_nth_eq)

lemma span_take: "k \<le> n \<Longrightarrow> take k (span m p n) = span m p k"
  by (simp add: span_def take_map)

section \<open>Facts about comparison\<close>

lemma strcmp_loop_zero_iff:
  "strcmp_loop m a b n i = 0 \<longleftrightarrow> (\<forall>k. i \<le> k \<and> k < n \<longrightarrow> m (a + k) = m (b + k))"
proof (induction m a b n i rule: strcmp_loop.induct)
  case (1 m a b n i)
  show ?case
  proof (cases "i < n")
    case False
    then show ?thesis by (subst strcmp_loop.simps) auto
  next
    case inb: True
    show ?thesis
    proof (cases "m (a + i) = m (b + i)")
      case False
      with inb have "strcmp_loop m a b n i \<noteq> 0"
        by (subst strcmp_loop.simps) simp
      moreover from False inb have "\<not> (\<forall>k. i \<le> k \<and> k < n \<longrightarrow> m (a + k) = m (b + k))"
        by auto
      ultimately show ?thesis by simp
    next
      case same: True
      with inb have "strcmp_loop m a b n i = strcmp_loop m a b n (i + 1)"
        by (subst strcmp_loop.simps) simp
      moreover have "(\<forall>k. i \<le> k \<and> k < n \<longrightarrow> m (a + k) = m (b + k))
          \<longleftrightarrow> (\<forall>k. i + 1 \<le> k \<and> k < n \<longrightarrow> m (a + k) = m (b + k))"
      proof -
        have "i \<le> k \<longleftrightarrow> k = i \<or> i + 1 \<le> k" for k by arith
        then show ?thesis using same inb by auto
      qed
      ultimately show ?thesis using "1.IH" inb same by simp
    qed
  qed
qed

lemma strcmp_loop_antisym: "strcmp_loop m a b n i = - strcmp_loop m b a n i"
proof (induction m a b n i rule: strcmp_loop.induct)
  case (1 m a b n i)
  show ?case
  proof (cases "i < n")
    case False
    then show ?thesis
      by (subst strcmp_loop.simps, subst (2) strcmp_loop.simps) simp
  next
    case inb: True
    show ?thesis
    proof (cases "m (a + i) = m (b + i)")
      case False
      then have "m (a + i) < m (b + i) \<or> m (b + i) < m (a + i)" by auto
      with inb False show ?thesis
        by (subst strcmp_loop.simps, subst (2) strcmp_loop.simps) auto
    next
      case same: True
      have "strcmp_loop m a b n i = strcmp_loop m a b n (i + 1)"
        using inb same by (subst strcmp_loop.simps) simp
      moreover have "strcmp_loop m b a n i = strcmp_loop m b a n (i + 1)"
        using inb same by (subst strcmp_loop.simps) simp
      ultimately show ?thesis using "1.IH" inb same by simp
    qed
  qed
qed

lemma strcmp_loop_same [simp]: "strcmp_loop m a a n i = 0"
  by (simp add: strcmp_loop_zero_iff)

lemma strcmp_Addr_zero_iff:
  "strcmp m (Addr a) (Addr b) n = 0 \<longleftrightarrow> span m a n = span m b n"
  by (simp add: strcmp_def strcmp_loop_zero_iff span_eq_iff)

lemma strcmp_Addr_antisym:
  "strcmp m (Addr a) (Addr b) n = - strcmp m (Addr b) (Addr a) n"
  using strcmp_loop_antisym [of m a b n 0] by (simp add: strcmp_def)

lemma strcmp_full_Addr_zero_iff:
  "strcmp_full m (Addr a) la (Addr b) lb = 0 \<longleftrightarrow> la = lb \<and> span m a la = span m b lb"
proof (cases "la = lb")
  case True
  then show ?thesis by (simp add: strcmp_full_def Let_def strcmp_Addr_zero_iff)
next
  case False
  then show ?thesis by (simp add: strcmp_full_def Let_def)
qed

lemma strcmp_full_Addr_antisym:
  "strcmp_full m (Addr a) la (Addr b) lb = - strcmp_full m (Addr b) lb (Addr a) la"
proof -
  let ?k = "if la < lb then la else lb"
  have k: "(if lb < la then lb else la) = ?k" by simp
  have s: "strcmp m (Addr a) (Addr b) ?k = - strcmp m (Addr b) (Addr a) ?k"
    by (rule strcmp_Addr_antisym)
  show ?thesis
    unfolding strcmp_full_def Let_def k s by simp
qed

section \<open>The equality views\<close>

text \<open>
  C1. For containers \<open>a\<close> and \<open>b\<close> of any capacities, \<^verbatim>\<open>a == b\<close> holds iff
  \<^verbatim>\<open>a.compare(b) == 0\<close> iff \<^verbatim>\<open>a <=> b\<close> is \<^verbatim>\<open>equal\<close>, and \<^verbatim>\<open>a.compare(b) == 0\<close> holds iff
  the two have the same length and the same units.
\<close>

theorem equality_views_agree:
  "(operator_eq m a b \<longleftrightarrow> compare m a b = 0) \<and>
   (compare m a b = 0 \<longleftrightarrow> operator_spaceship m a b = Equal) \<and>
   (compare m a b = 0 \<longleftrightarrow> len a = len b \<and> content m a = content m b)"
proof -
  have c: "compare m a b = 0 \<longleftrightarrow> len a = len b \<and> content m a = content m b"
    by (simp add: compare_def content_def strcmp_full_Addr_zero_iff)
  have e: "operator_eq m a b \<longleftrightarrow> compare m a b = 0"
    using c by (auto simp: operator_eq_def)
  have s: "compare m a b = 0 \<longleftrightarrow> operator_spaceship m a b = Equal"
    by (simp add: operator_spaceship_def Let_def)
  from c e s show ?thesis by blast
qed

text \<open>
  C9. \<^verbatim>\<open>a.compare(a) == 0\<close> for every container, and \<^verbatim>\<open>a.compare(b) == -b.compare(a)\<close>
  for every pair of containers.
\<close>

theorem compare_refl_antisym:
  "compare m a a = 0 \<and> compare m a b = - compare m b a"
proof
  show "compare m a a = 0"
    by (simp add: compare_def strcmp_full_Addr_zero_iff)
  show "compare m a b = - compare m b a"
    unfolding compare_def by (rule strcmp_full_Addr_antisym)
qed

section \<open>Comparison with an absent sequence\<close>

text \<open>
  C3, as stated: for every container \<open>s\<close>, the empty one included, \<^verbatim>\<open>s.compare(nullptr)\<close>
  is greater than 0. The empty container refutes it: the result is 0.
\<close>

theorem compare_null_counterexample:
  "compare_cstr (mem_of ([] :: 8 word list)) \<lparr>data = 0, capacity = 4, len = 0\<rparr> Null = Some 0"
  by (simp add: compare_cstr_def)

text \<open>
  C3, amended: \<^verbatim>\<open>s.compare(nullptr)\<close> returns 1 for every container that is not empty and
  0 for the empty container.
\<close>

theorem compare_null:
  "compare_cstr m s Null = Some (if len s > 0 then 1 else 0)"
  by (simp add: compare_cstr_def)

theorem compare_null_witness:
  "compare_cstr (mem_of [104, 105, 0 :: 8 word]) \<lparr>data = 0, capacity = 2, len = 2\<rparr> Null = Some 1"
  using compare_null [of "mem_of [104, 105, 0 :: 8 word]" "\<lparr>data = 0, capacity = 2, len = 2\<rparr>"]
  by simp

section \<open>Containment\<close>

text \<open>
  C8. For every container \<open>s\<close> and every search key (a raw sequence, another container, a
  character), \<^verbatim>\<open>s.contains(x)\<close> is true iff \<^verbatim>\<open>s.find(x)\<close> is not \<^verbatim>\<open>npos\<close>. For a raw
  sequence the two calls return or fail to return together.
\<close>

theorem contains_iff_find:
  "(contains_cstr m s str = Some True \<longleftrightarrow> (\<exists>r. find_cstr m s str 0 = Some r \<and> r \<noteq> npos)) \<and>
   (contains_cstr m s str = Some False \<longleftrightarrow> find_cstr m s str 0 = Some npos) \<and>
   (contains_cstr m s str = None \<longleftrightarrow> find_cstr m s str 0 = None) \<and>
   (contains_str m s other \<longleftrightarrow> find_str m s other 0 \<noteq> npos) \<and>
   (contains_ch m s ch \<longleftrightarrow> find_ch m s ch 0 \<noteq> npos)"
  by (cases "find_cstr m s str 0") (simp_all add: contains_cstr_def contains_str_def contains_ch_def)

section \<open>The hash is FNV-1a\<close>

lemma byte_value_ucast:
  "unat (ucast (ucast (c :: 'a::len word) :: 8 word) :: 64 word) = byte_value c"
proof -
  have "unat (ucast (ucast c :: 8 word) :: 64 word) = take_bit 8 (unat (ucast c :: 64 word))"
    by (simp add: unsigned_ucast_eq unsigned_take_bit_eq)
  also have "\<dots> = take_bit 8 (take_bit 64 (unat c))"
    by (simp only: unsigned_ucast_eq) simp
  also have "\<dots> = take_bit 8 (unat c)"
    by simp
  finally show ?thesis by (simp add: byte_value_def take_bit_eq_mod)
qed

lemma unat_FNV_PRIME: "unat FNV_PRIME = 1099511628211"
  by (simp add: FNV_PRIME_def)

lemma unat_FNV_OFFSET: "unat FNV_OFFSET = 14695981039346656037"
  by (simp add: FNV_OFFSET_def)

lemma unat_hash_step:
  "unat ((h XOR (ucast (ucast (c :: 'a::len word) :: 8 word) :: 64 word)) * FNV_PRIME)
     = fnv1a_step (unat h) (byte_value c)"
proof -
  have "unat ((h XOR (ucast (ucast c :: 8 word) :: 64 word)) * FNV_PRIME)
      = (unat (h XOR (ucast (ucast c :: 8 word) :: 64 word)) * unat FNV_PRIME) mod 2 ^ 64"
    by (simp add: unat_word_ariths)
  also have "unat (h XOR (ucast (ucast c :: 8 word) :: 64 word)) = unat h XOR byte_value c"
    by (simp add: unsigned_xor_eq byte_value_ucast)
  finally show ?thesis by (simp add: fnv1a_step_def unat_FNV_PRIME)
qed

lemma drop_span: "i < n \<Longrightarrow> drop i (span m p n) = m (p + i) # drop (i + 1) (span m p n)"
  using Cons_nth_drop_Suc [of i "span m p n"] by simp

lemma unat_hash_loop:
  "unat (hash_loop m str n i h)
     = foldl fnv1a_step (unat h) (map byte_value (drop i (span m str n)))"
proof (induction m str n i h rule: hash_loop.induct)
  case (1 m str n i h)
  show ?case
  proof (cases "i < n")
    case False
    then show ?thesis by (subst hash_loop.simps) simp
  next
    case True
    have "unat (hash_loop m str n i h)
        = unat (hash_loop m str n (i + 1)
            ((h XOR (ucast (ucast (m (str + i)) :: 8 word) :: 64 word)) * FNV_PRIME))"
      using True by (subst hash_loop.simps) simp
    also have "\<dots> = foldl fnv1a_step (fnv1a_step (unat h) (byte_value (m (str + i))))
          (map byte_value (drop (i + 1) (span m str n)))"
      using "1.IH" [OF True] by (simp only: unat_hash_step)
    also have "\<dots> = foldl fnv1a_step (unat h) (map byte_value (drop i (span m str n)))"
      by (simp add: drop_span [OF True])
    finally show ?thesis .
  qed
qed

lemma byte_value_char: "byte_value (c :: 8 word) = unat c"
proof -
  have "unat c < 2 ^ LENGTH(8)" by (rule unsigned_less)
  then show ?thesis by (simp add: byte_value_def)
qed

text \<open>
  C6. \<^verbatim>\<open>hash_fnv1a(str, len)\<close> is the FNV-1a fold over the \<open>len\<close> units in index order:
  from the offset basis 14695981039346656037, XOR in the unsigned byte value of the unit
  and multiply by 1099511628211, modulo \<open>2 ^ 64\<close>. Hence sequences with equal content
  have equal hashes.
\<close>

theorem hash_is_fnv1a:
  "unat (hash_fnv1a m str n) = fnv1a_fold (map byte_value (span m str n)) \<and>
   (span m str n = span m' str' n \<longrightarrow> hash_fnv1a m str n = hash_fnv1a m' str' n)"
proof
  show f: "unat (hash_fnv1a m str n) = fnv1a_fold (map byte_value (span m str n))" for m :: "'a word mem" and str
    by (simp add: hash_fnv1a_def fnv1a_fold_def unat_hash_loop unat_FNV_OFFSET)
  show "span m str n = span m' str' n \<longrightarrow> hash_fnv1a m str n = hash_fnv1a m' str' n"
  proof
    assume "span m str n = span m' str' n"
    then have "unat (hash_fnv1a m str n) = unat (hash_fnv1a m' str' n)"
      by (simp add: f)
    then show "hash_fnv1a m str n = hash_fnv1a m' str' n"
      by (simp add: word_unat_eq_iff)
  qed
qed

theorem hash_is_fnv1a_witness:
  "span (mem_of [104, 105 :: 8 word]) 0 2 = span (mem_of [0, 104, 105 :: 8 word]) 1 2 \<and>
   hash_fnv1a (mem_of [104, 105 :: 8 word]) 0 2 = hash_fnv1a (mem_of [0, 104, 105 :: 8 word]) 1 2 \<and>
   unat (hash_fnv1a (mem_of [104, 105 :: 8 word]) 0 2) = 628919584683901914"
proof -
  have s: "span (mem_of [104, 105 :: 8 word]) 0 2 = span (mem_of [0, 104, 105 :: 8 word]) 1 2"
    by (simp add: span_def mem_of_def upt_rec)
  have b: "map byte_value (span (mem_of [104, 105 :: 8 word]) 0 2) = [104, 105]"
    by (simp add: span_def mem_of_def upt_rec byte_value_def)
  have f: "fnv1a_fold [104, 105] = 628919584683901914"
    by (simp add: fnv1a_fold_def fnv1a_step_def)
  note t = hash_is_fnv1a [of "mem_of [104, 105 :: 8 word]" 0 2 "mem_of [0, 104, 105 :: 8 word]" 1]
  from t have "unat (hash_fnv1a (mem_of [104, 105 :: 8 word]) 0 2)
      = fnv1a_fold (map byte_value (span (mem_of [104, 105 :: 8 word]) 0 2))"
    by (rule conjunct1)
  then have u: "unat (hash_fnv1a (mem_of [104, 105 :: 8 word]) 0 2) = 628919584683901914"
    by (simp only: b f)
  from t s have h: "hash_fnv1a (mem_of [104, 105 :: 8 word]) 0 2
      = hash_fnv1a (mem_of [0, 104, 105 :: 8 word]) 1 2"
    by blast
  from s u h show ?thesis by blast
qed

section \<open>Overlapping moves\<close>

lemma copy_forward_frame:
  "x < dest + i \<or> dest + count \<le> x \<Longrightarrow> copy_forward m dest src count i x = m x"
proof (induction m dest src count i rule: copy_forward.induct)
  case (1 m dest src count i)
  show ?case
  proof (cases "i < count")
    case False
    then show ?thesis by (subst copy_forward.simps) simp
  next
    case True
    have "copy_forward m dest src count i x
        = copy_forward (m(dest + i := m (src + i))) dest src count (i + 1) x"
      using True by (subst copy_forward.simps) simp
    also have "\<dots> = (m(dest + i := m (src + i))) x"
    proof -
      from "1.prems" have "x < dest + (i + 1) \<or> dest + count \<le> x" by auto
      then show ?thesis by (rule "1.IH" [OF True])
    qed
    also have "\<dots> = m x"
      using "1.prems" True by auto
    finally show ?thesis .
  qed
qed

lemma copy_forward_copies:
  "dest < src \<Longrightarrow> i \<le> k \<Longrightarrow> k < count \<Longrightarrow>
     copy_forward m dest src count i (dest + k) = m (src + k)"
proof (induction m dest src count i rule: copy_forward.induct)
  case (1 m dest src count i)
  from "1.prems" have inb: "i < count" by simp
  let ?m1 = "m(dest + i := m (src + i))"
  have unfold: "copy_forward m dest src count i = copy_forward ?m1 dest src count (i + 1)"
    using inb by (subst copy_forward.simps) simp
  show ?case
  proof (cases "k = i")
    case True
    have "copy_forward ?m1 dest src count (i + 1) (dest + i) = ?m1 (dest + i)"
      by (rule copy_forward_frame) simp
    then show ?thesis using True unfold by simp
  next
    case False
    with "1.prems" have "i + 1 \<le> k" by simp
    then have "copy_forward ?m1 dest src count (i + 1) (dest + k) = ?m1 (src + k)"
      using "1.prems" by (intro "1.IH" [OF inb])
    moreover have "src + k \<noteq> dest + i" using "1.prems" by simp
    ultimately show ?thesis using unfold by simp
  qed
qed

lemma copy_backward_frame:
  "x < dest \<or> dest + i \<le> x \<Longrightarrow> copy_backward m dest src i x = m x"
  by (induction i arbitrary: m) auto

lemma copy_backward_copies:
  "src \<le> dest \<Longrightarrow> k < i \<Longrightarrow> copy_backward m dest src i (dest + k) = m (src + k)"
proof (induction i arbitrary: m)
  case 0
  then show ?case by simp
next
  case (Suc i)
  let ?m1 = "m(dest + i := m (src + i))"
  show ?case
  proof (cases "k = i")
    case True
    have "copy_backward ?m1 dest src i (dest + i) = ?m1 (dest + i)"
      by (rule copy_backward_frame) simp
    then show ?thesis using True by simp
  next
    case False
    with Suc.prems have "k < i" by simp
    then have "copy_backward ?m1 dest src i (dest + k) = ?m1 (src + k)"
      using Suc.IH Suc.prems by simp
    moreover have "src + k \<noteq> dest + i" using Suc.prems \<open>k < i\<close> by simp
    ultimately show ?thesis by simp
  qed
qed

lemma copy_forward_none: "copy_forward m dest src 0 0 = m"
  by (subst copy_forward.simps) simp

lemma copy_backward_same: "copy_backward m dest dest i = m"
  by (induction i arbitrary: m) simp_all

text \<open>
  C5. For every count and every pair of source and destination ranges, overlapping or
  not, \<^verbatim>\<open>memmove_string\<close> leaves in \<^verbatim>\<open>dest[0..count)\<close> the values that \<^verbatim>\<open>src[0..count)\<close>
  held before the call. It writes nothing outside \<^verbatim>\<open>dest[0..count)\<close>, and it is the
  front-to-back copy when the destination precedes the source and the back-to-front copy
  otherwise.
\<close>

theorem memmove_string_overlap_safe:
  "span (memmove_string m dest src count) dest count = span m src count \<and>
   (\<forall>x. x < dest \<or> dest + count \<le> x \<longrightarrow> memmove_string m dest src count x = m x) \<and>
   (dest < src \<longrightarrow> memmove_string m dest src count = copy_forward m dest src count 0) \<and>
   (\<not> dest < src \<longrightarrow> memmove_string m dest src count = copy_backward m dest src count)"
proof (intro conjI)
  show "span (memmove_string m dest src count) dest count = span m src count"
  proof (cases "dest = src \<or> count = 0")
    case True
    then show ?thesis by (auto simp: memmove_string_def span_def)
  next
    case False
    show ?thesis
    proof (cases "dest < src")
      case True
      with False show ?thesis
        by (simp add: memmove_string_def span_eq_iff copy_forward_copies)
    next
      case ge: False
      with False have "src \<le> dest" by simp
      with False ge show ?thesis
        by (simp add: memmove_string_def span_eq_iff copy_backward_copies)
    qed
  qed
  show "\<forall>x. x < dest \<or> dest + count \<le> x \<longrightarrow> memmove_string m dest src count x = m x"
    by (simp add: memmove_string_def copy_forward_frame copy_backward_frame)
  show "dest < src \<longrightarrow> memmove_string m dest src count = copy_forward m dest src count 0"
    by (simp add: memmove_string_def copy_forward_none)
  show "\<not> dest < src \<longrightarrow> memmove_string m dest src count = copy_backward m dest src count"
    by (simp add: memmove_string_def copy_backward_same)
qed

theorem memmove_string_overlap_safe_witness:
  "(0 :: nat) < 2 \<and>
   span (mem_of [1, 2, 3, 4, 5, 6 :: 8 word]) 0 4 = [1, 2, 3, 4] \<and>
   span (memmove_string (mem_of [1, 2, 3, 4, 5, 6 :: 8 word]) 2 0 4) 2 4 = [1, 2, 3, 4] \<and>
   memmove_string (mem_of [1, 2, 3, 4, 5, 6 :: 8 word]) 2 0 4 1 = 2 \<and>
   memmove_string (mem_of [1, 2, 3, 4, 5, 6 :: 8 word]) 2 0 4
     = copy_backward (mem_of [1, 2, 3, 4, 5, 6 :: 8 word]) 2 0 4 \<and>
   span (mem_of [1, 2, 3, 4, 5, 6 :: 8 word]) 2 4 = [3, 4, 5, 6] \<and>
   span (memmove_string (mem_of [1, 2, 3, 4, 5, 6 :: 8 word]) 0 2 4) 0 4 = [3, 4, 5, 6] \<and>
   memmove_string (mem_of [1, 2, 3, 4, 5, 6 :: 8 word]) 0 2 4
     = copy_forward (mem_of [1, 2, 3, 4, 5, 6 :: 8 word]) 0 2 4 0"
proof -
  let ?m = "mem_of [1, 2, 3, 4, 5, 6 :: 8 word]"
  have h: "(0 :: nat) < 2"
    by simp
  have s1: "span ?m 0 4 = [1, 2, 3, 4]"
    by (simp add: span_def mem_of_def upt_rec)
  have s2: "span ?m 2 4 = [3, 4, 5, 6]"
    by (simp add: span_def mem_of_def upt_rec)
  have v: "?m 1 = 2"
    by (simp add: mem_of_def)
  have o: "(1 :: nat) < 2 \<or> (2 :: nat) + 4 \<le> 1"
    by simp
  note bwd = memmove_string_overlap_safe [of ?m 2 0 4]
  note fwd = memmove_string_overlap_safe [of ?m 0 2 4]
  from bwd have b1: "span (memmove_string ?m 2 0 4) 2 4 = span ?m 0 4"
    by (rule conjunct1)
  from bwd o have "memmove_string ?m 2 0 4 1 = ?m 1"
    by blast
  with v have b2: "memmove_string ?m 2 0 4 1 = 2"
    by simp
  have h': "\<not> (2 :: nat) < 0"
    by simp
  from bwd h' have b3: "memmove_string ?m 2 0 4 = copy_backward ?m 2 0 4"
    by blast
  from fwd have f1: "span (memmove_string ?m 0 2 4) 0 4 = span ?m 2 4"
    by (rule conjunct1)
  from fwd h have f3: "memmove_string ?m 0 2 4 = copy_forward ?m 0 2 4 0"
    by blast
  from b1 s1 have b1': "span (memmove_string ?m 2 0 4) 2 4 = [1, 2, 3, 4]"
    by simp
  from f1 s2 have f1': "span (memmove_string ?m 0 2 4) 0 4 = [3, 4, 5, 6]"
    by simp
  from h s1 s2 b1' b2 b3 f1' f3 show ?thesis
    by blast
qed

section \<open>Substring search finds the first occurrence\<close>

lemma match_loop_iff:
  "match_loop m haystack needle needle_len i j
     \<longleftrightarrow> (\<forall>k. j \<le> k \<and> k < needle_len \<longrightarrow> m (haystack + (i + k)) = m (needle + k))"
proof (induction m haystack needle needle_len i j rule: match_loop.induct)
  case (1 m haystack needle needle_len i j)
  show ?case
  proof (cases "j < needle_len")
    case False
    then show ?thesis by (subst match_loop.simps) auto
  next
    case inb: True
    show ?thesis
    proof (cases "m (haystack + (i + j)) = m (needle + j)")
      case False
      with inb have "\<not> match_loop m haystack needle needle_len i j"
        by (subst match_loop.simps) simp
      moreover from False inb
      have "\<not> (\<forall>k. j \<le> k \<and> k < needle_len \<longrightarrow> m (haystack + (i + k)) = m (needle + k))"
        by auto
      ultimately show ?thesis by simp
    next
      case same: True
      with inb have "match_loop m haystack needle needle_len i j
          = match_loop m haystack needle needle_len i (j + 1)"
        by (subst match_loop.simps) simp
      moreover have "(\<forall>k. j \<le> k \<and> k < needle_len \<longrightarrow> m (haystack + (i + k)) = m (needle + k))
          \<longleftrightarrow> (\<forall>k. j + 1 \<le> k \<and> k < needle_len \<longrightarrow> m (haystack + (i + k)) = m (needle + k))"
      proof -
        have "j \<le> k \<longleftrightarrow> k = j \<or> j + 1 \<le> k" for k by arith
        then show ?thesis using same by auto
      qed
      ultimately show ?thesis using "1.IH" inb same by simp
    qed
  qed
qed

lemma match_loop_span:
  "match_loop m haystack needle needle_len i 0
     \<longleftrightarrow> span m (haystack + i) needle_len = span m needle needle_len"
  by (simp add: match_loop_iff span_eq_iff add.assoc)

lemma find_substring_loop_found:
  "i \<le> p \<Longrightarrow> p \<le> haystack_len - needle_len \<Longrightarrow> match_loop m haystack needle needle_len p 0 \<Longrightarrow>
     i \<le> find_substring_loop m haystack haystack_len needle needle_len i \<and>
     find_substring_loop m haystack haystack_len needle needle_len i \<le> p \<and>
     match_loop m haystack needle needle_len
       (find_substring_loop m haystack haystack_len needle needle_len i) 0 \<and>
     (\<forall>q. i \<le> q \<and> q < find_substring_loop m haystack haystack_len needle needle_len i
        \<longrightarrow> \<not> match_loop m haystack needle needle_len q 0)"
proof (induction m haystack haystack_len needle needle_len i rule: find_substring_loop.induct)
  case (1 m haystack haystack_len needle needle_len i)
  let ?r = "find_substring_loop m haystack haystack_len needle needle_len i"
  from "1.prems" have inb: "i \<le> haystack_len - needle_len" by simp
  show ?case
  proof (cases "match_loop m haystack needle needle_len i 0")
    case True
    with inb have "?r = i" by (subst find_substring_loop.simps) simp
    with True "1.prems" show ?thesis by auto
  next
    case False
    with inb have r: "?r = find_substring_loop m haystack haystack_len needle needle_len (i + 1)"
      by (subst find_substring_loop.simps) simp
    from False "1.prems" have "i \<noteq> p" by auto
    with "1.prems" have "i + 1 \<le> p" by simp
    note ih = "1.IH" [OF inb False this "1.prems"(2) "1.prems"(3)]
    have "\<not> match_loop m haystack needle needle_len q 0" if "i \<le> q" "q < ?r" for q
    proof (cases "q = i")
      case True
      with False show ?thesis by simp
    next
      case False
      with that have "i + 1 \<le> q" by simp
      with ih that r show ?thesis by simp
    qed
    with ih r show ?thesis by simp
  qed
qed

lemma find_substring_loop_none:
  "(\<forall>q. i \<le> q \<and> q \<le> haystack_len - needle_len \<longrightarrow> \<not> match_loop m haystack needle needle_len q 0)
     \<Longrightarrow> find_substring_loop m haystack haystack_len needle needle_len i = npos"
proof (induction m haystack haystack_len needle needle_len i rule: find_substring_loop.induct)
  case (1 m haystack haystack_len needle needle_len i)
  show ?case
  proof (cases "i \<le> haystack_len - needle_len")
    case False
    then show ?thesis by (subst find_substring_loop.simps) simp
  next
    case True
    with "1.prems" have nm: "\<not> match_loop m haystack needle needle_len i 0" by simp
    with True have "find_substring_loop m haystack haystack_len needle needle_len i
        = find_substring_loop m haystack haystack_len needle needle_len (i + 1)"
      by (subst find_substring_loop.simps) simp
    moreover have "find_substring_loop m haystack haystack_len needle needle_len (i + 1) = npos"
      using "1.prems" by (intro "1.IH" [OF True nm]) simp
    ultimately show ?thesis by simp
  qed
qed

lemma occurs_at_match:
  "needle_len \<le> haystack_len \<Longrightarrow>
     occurs_at m haystack haystack_len needle needle_len i
       \<longleftrightarrow> i \<le> haystack_len - needle_len \<and> match_loop m haystack needle needle_len i 0"
  by (auto simp: occurs_at_def match_loop_span)

text \<open>
  C4. \<^verbatim>\<open>find_substring\<close> returns \<open>pos\<close> itself when the needle is empty and
  \<open>pos \<le> haystack_len\<close>; it returns \<^verbatim>\<open>npos\<close> when the needle is empty and
  \<open>pos > haystack_len\<close>, and whenever the needle is longer than the remaining haystack
  (\<open>needle_len > haystack_len - pos\<close>, the difference taken in the integers); otherwise it
  returns the smallest index \<open>i \<ge> pos\<close> at which the needle occurs in the haystack, or
  \<^verbatim>\<open>npos\<close> if there is none. The last case is stated for every needle that is not
  empty: a needle longer than the remaining haystack occurs nowhere from \<open>pos\<close> on.
\<close>

theorem find_substring_spec:
  "(needle_len = 0 \<and> pos \<le> haystack_len \<longrightarrow>
      find_substring m haystack haystack_len needle needle_len pos = pos) \<and>
   (needle_len = 0 \<and> pos > haystack_len \<longrightarrow>
      find_substring m haystack haystack_len needle needle_len pos = npos) \<and>
   (int needle_len > int haystack_len - int pos \<longrightarrow>
      find_substring m haystack haystack_len needle needle_len pos = npos) \<and>
   (needle_len \<noteq> 0 \<longrightarrow>
      (if \<exists>i. pos \<le> i \<and> occurs_at m haystack haystack_len needle needle_len i
       then find_substring m haystack haystack_len needle needle_len pos
          = (LEAST i. pos \<le> i \<and> occurs_at m haystack haystack_len needle needle_len i)
       else find_substring m haystack haystack_len needle needle_len pos = npos))"
proof (intro conjI impI)
  assume "needle_len = 0 \<and> pos \<le> haystack_len"
  then show "find_substring m haystack haystack_len needle needle_len pos = pos"
    by (simp add: find_substring_def)
next
  assume "needle_len = 0 \<and> pos > haystack_len"
  then show "find_substring m haystack haystack_len needle needle_len pos = npos"
    by (simp add: find_substring_def)
next
  assume "int needle_len > int haystack_len - int pos"
  then show "find_substring m haystack haystack_len needle needle_len pos = npos"
    by (auto simp: find_substring_def)
next
  assume nonempty: "needle_len \<noteq> 0"
  let ?occ = "\<lambda>i. pos \<le> i \<and> occurs_at m haystack haystack_len needle needle_len i"
  let ?loop = "find_substring_loop m haystack haystack_len needle needle_len pos"
  show "if \<exists>i. ?occ i
        then find_substring m haystack haystack_len needle needle_len pos = (LEAST i. ?occ i)
        else find_substring m haystack haystack_len needle needle_len pos = npos"
  proof (cases "int needle_len \<le> int haystack_len - int pos")
    case False
    then have "\<not> (\<exists>i. ?occ i)"
      by (auto simp: occurs_at_def)
    moreover from False have "find_substring m haystack haystack_len needle needle_len pos = npos"
      by (auto simp: find_substring_def)
    ultimately show ?thesis by (simp only: if_False)
  next
    case room: True
    then have fit: "needle_len \<le> haystack_len" and start: "pos \<le> haystack_len - needle_len"
      by auto
    have fs: "find_substring m haystack haystack_len needle needle_len pos = ?loop"
      using nonempty fit start by (simp add: find_substring_def)
    show ?thesis
    proof (cases "\<exists>i. ?occ i")
      case True
      then obtain p where p: "pos \<le> p" "occurs_at m haystack haystack_len needle needle_len p"
        by blast
      then have pm: "p \<le> haystack_len - needle_len" "match_loop m haystack needle needle_len p 0"
        using occurs_at_match [OF fit] by auto
      note f = find_substring_loop_found [OF p(1) pm]
      have "?loop \<le> haystack_len - needle_len"
        using f pm(1) by simp
      moreover from f have "pos \<le> ?loop" and "match_loop m haystack needle needle_len ?loop 0"
        by simp_all
      ultimately have o: "?occ ?loop"
        by (simp add: occurs_at_match [OF fit])
      have least: "?loop \<le> y" if "?occ y" for y
      proof (rule ccontr)
        assume "\<not> ?loop \<le> y"
        then have "y < ?loop" by simp
        with f that have "\<not> match_loop m haystack needle needle_len y 0" by simp
        with that show False by (simp add: occurs_at_match [OF fit])
      qed
      have "(LEAST i. ?occ i) = ?loop"
        using o least by (rule Least_equality)
      with fs have "find_substring m haystack haystack_len needle needle_len pos = (LEAST i. ?occ i)"
        by simp
      with True show ?thesis by (simp only: if_True)
    next
      case False
      then have "\<forall>q. pos \<le> q \<and> q \<le> haystack_len - needle_len
          \<longrightarrow> \<not> match_loop m haystack needle needle_len q 0"
        by (simp add: occurs_at_match [OF fit])
      then have "?loop = npos" by (rule find_substring_loop_none)
      with fs have "find_substring m haystack haystack_len needle needle_len pos = npos"
        by simp
      with False show ?thesis by (simp only: if_False)
    qed
  qed
qed

theorem find_substring_spec_witness:
  "find_substring (mem_of [97, 98, 99, 98, 99, 100, 0, 98, 99 :: 8 word]) 0 6 7 2 2 = 3 \<and>
   (LEAST i. 2 \<le> i \<and> occurs_at (mem_of [97, 98, 99, 98, 99, 100, 0, 98, 99 :: 8 word]) 0 6 7 2 i) = 3 \<and>
   find_substring (mem_of [97, 98, 99, 98, 99, 100, 0, 98, 99 :: 8 word]) 0 6 7 0 4 = 4 \<and>
   find_substring (mem_of [97, 98, 99, 98, 99, 100, 0, 98, 99 :: 8 word]) 0 6 7 0 7 = npos \<and>
   find_substring (mem_of [97, 98, 99, 98, 99, 100, 0, 98, 99 :: 8 word]) 0 6 7 2 5 = npos"
proof -
  let ?m = "mem_of [97, 98, 99, 98, 99, 100, 0, 98, 99 :: 8 word]"
  have v: "find_substring ?m 0 6 7 2 2 = 3"
    by (simp add: find_substring_def find_substring_loop.simps match_loop.simps mem_of_def)
  have o: "(2 :: nat) \<le> 3 \<and> occurs_at ?m 0 6 7 2 3"
    by (simp add: occurs_at_def span_def mem_of_def upt_rec)
  have h: "(2 :: nat) \<noteq> 0"
    by simp
  from o have e: "\<exists>i. 2 \<le> i \<and> occurs_at ?m 0 6 7 2 i"
    by blast
  from find_substring_spec [of 2 2 6 ?m 0 7] h
  have "if \<exists>i. 2 \<le> i \<and> occurs_at ?m 0 6 7 2 i
        then find_substring ?m 0 6 7 2 2 = (LEAST i. 2 \<le> i \<and> occurs_at ?m 0 6 7 2 i)
        else find_substring ?m 0 6 7 2 2 = npos"
    by blast
  with e have "find_substring ?m 0 6 7 2 2 = (LEAST i. 2 \<le> i \<and> occurs_at ?m 0 6 7 2 i)"
    by (simp only: if_True)
  with v have l: "(LEAST i. 2 \<le> i \<and> occurs_at ?m 0 6 7 2 i) = 3"
    by simp
  have h1: "(0 :: nat) = 0 \<and> (4 :: nat) \<le> 6"
    by simp
  from find_substring_spec [of 0 4 6 ?m 0 7] h1 have e1: "find_substring ?m 0 6 7 0 4 = 4"
    by blast
  have h2: "(0 :: nat) = 0 \<and> (7 :: nat) > 6"
    by simp
  from find_substring_spec [of 0 7 6 ?m 0 7] h2 have e2: "find_substring ?m 0 6 7 0 7 = npos"
    by blast
  have h3: "int 2 > int 6 - int 5"
    by simp
  from find_substring_spec [of 2 5 6 ?m 0 7] h3 have e3: "find_substring ?m 0 6 7 2 5 = npos"
    by blast
  from v l e1 e2 e3 show ?thesis
    by blast
qed

section \<open>Decimal digits\<close>

lemma count_digits_loop_zero: "count_digits_loop 0 digits = digits"
  by (subst count_digits_loop.simps) simp

lemma count_digits_loop_pos:
  "val > 0 \<Longrightarrow> count_digits_loop val digits = count_digits_loop (val div 10) (digits + 1)"
  by (subst count_digits_loop.simps [of val digits]) simp

lemma count_digits_loop_acc:
  "count_digits_loop val digits = digits + count_digits_loop val 0"
proof (induction val arbitrary: digits rule: less_induct)
  case (less val)
  show ?case
  proof (cases "val > 0")
    case False
    then show ?thesis by (simp add: count_digits_loop_zero)
  next
    case True
    then have lt: "val div 10 < val" by simp
    have "count_digits_loop (val div 10) (digits + 1)
        = digits + 1 + count_digits_loop (val div 10) 0"
      by (rule less.IH [OF lt])
    moreover have "count_digits_loop (val div 10) (0 + 1)
        = 0 + 1 + count_digits_loop (val div 10) 0"
      by (rule less.IH [OF lt])
    ultimately show ?thesis
      using count_digits_loop_pos [OF True, of digits] count_digits_loop_pos [OF True, of 0]
      by simp
  qed
qed

lemma count_digits_loop_step:
  "val > 0 \<Longrightarrow> count_digits_loop val 0 = 1 + count_digits_loop (val div 10) 0"
  using count_digits_loop_pos [of val 0] count_digits_loop_acc [of "val div 10" 1] by simp

lemma decimal_digits_small: "n < 10 \<Longrightarrow> decimal_digits n = [n]"
  by (subst decimal_digits.simps) simp

lemma decimal_digits_large:
  "\<not> n < 10 \<Longrightarrow> decimal_digits n = decimal_digits (n div 10) @ [n mod 10]"
  by (subst decimal_digits.simps) simp

lemma length_decimal_digits: "length (decimal_digits n) = count_digits n"
proof (induction n rule: decimal_digits.induct)
  case (1 n)
  show ?case
  proof (cases "n < 10")
    case True
    show ?thesis
    proof (cases "n = 0")
      case True
      then show ?thesis by (simp add: decimal_digits_small count_digits_def)
    next
      case False
      with True have "n div 10 = 0" by simp
      with False have "count_digits_loop n 0 = 1"
        using count_digits_loop_step [of n] by (simp add: count_digits_loop_zero)
      with True False show ?thesis by (simp add: decimal_digits_small count_digits_def)
    qed
  next
    case False
    then have pos: "n > 0" and pos': "n div 10 \<noteq> 0" by simp_all
    have "count_digits n = 1 + count_digits (n div 10)"
      using pos pos' count_digits_loop_step [of n] by (simp add: count_digits_def)
    with "1.IH" [OF False] False show ?thesis
      by (simp add: decimal_digits_large)
  qed
qed

lemma count_digits_pos: "0 < count_digits n"
  using length_decimal_digits [of n]
  by (cases "n < 10") (simp_all add: decimal_digits_small decimal_digits_large)

lemma nth_decimal_digits:
  "j < count_digits n \<Longrightarrow> decimal_digits n ! j = (n div 10 ^ (count_digits n - 1 - j)) mod 10"
proof (induction n arbitrary: j rule: decimal_digits.induct)
  case (1 n)
  show ?case
  proof (cases "n < 10")
    case True
    then have "count_digits n = 1"
      using length_decimal_digits [of n] by (simp add: decimal_digits_small)
    with "1.prems" True show ?thesis by (simp add: decimal_digits_small)
  next
    case False
    let ?L = "count_digits (n div 10)"
    have len: "count_digits n = ?L + 1"
      using length_decimal_digits [of n] length_decimal_digits [of "n div 10"] False
      by (simp add: decimal_digits_large)
    show ?thesis
    proof (cases "j < ?L")
      case True
      have "decimal_digits n ! j = decimal_digits (n div 10) ! j"
        using True False by (simp add: decimal_digits_large nth_append length_decimal_digits)
      also have "\<dots> = ((n div 10) div 10 ^ (?L - 1 - j)) mod 10"
        by (rule "1.IH" [OF False True])
      also have "(n div 10) div 10 ^ (?L - 1 - j) = n div 10 ^ (Suc (?L - 1 - j))"
        by (simp add: div_mult2_eq)
      also have "Suc (?L - 1 - j) = count_digits n - 1 - j"
        using True len by simp
      finally show ?thesis .
    next
      case notless: False
      with "1.prems" len have j: "j = ?L" by simp
      then have "decimal_digits n ! j = n mod 10"
        using False by (simp add: decimal_digits_large nth_append length_decimal_digits)
      with j len show ?thesis by simp
    qed
  qed
qed

section \<open>The two loops of the unsigned conversion\<close>

lemma digits_loop_stop:
  "\<not> (temp > 0 \<and> pos < cap) \<Longrightarrow> digits_loop m buffer cap temp pos = (m, pos)"
  by (subst digits_loop.simps [of m buffer cap temp pos]) (simp only: if_False)

lemma digits_loop_step:
  "temp > 0 \<Longrightarrow> pos < cap \<Longrightarrow>
     digits_loop m buffer cap temp pos
       = digits_loop (m(buffer + pos := of_nat (48 + temp mod 10))) buffer cap (temp div 10) (pos + 1)"
  by (subst digits_loop.simps [of m buffer cap temp pos]) simp

lemma digits_loop_count:
  "pos \<le> cap \<Longrightarrow>
     snd (digits_loop m buffer cap temp pos) = min cap (pos + count_digits_loop temp 0)"
proof (induction m buffer cap temp pos rule: digits_loop.induct)
  case (1 m buffer cap temp pos)
  show ?case
  proof (cases "temp > 0 \<and> pos < cap")
    case False
    then have "temp = 0 \<or> pos = cap" using "1.prems" by auto
    then show ?thesis
      using "1.prems" by (auto simp: digits_loop_stop [OF False] count_digits_loop_zero)
  next
    case True
    then have t: "temp > 0" and p: "pos < cap" by simp_all
    from p have "pos + 1 \<le> cap" by simp
    then have "snd (digits_loop (m(buffer + pos := of_nat (48 + temp mod 10))) buffer cap
          (temp div 10) (pos + 1))
        = min cap (pos + 1 + count_digits_loop (temp div 10) 0)"
      by (rule "1.IH" [OF True])
    then show ?thesis
      by (simp add: digits_loop_step [OF t p, of m buffer] count_digits_loop_step [OF t])
  qed
qed

lemma digits_loop_frame:
  "x < buffer + pos \<or> buffer + cap \<le> x \<Longrightarrow> fst (digits_loop m buffer cap temp pos) x = m x"
proof (induction m buffer cap temp pos rule: digits_loop.induct)
  case (1 m buffer cap temp pos)
  show ?case
  proof (cases "temp > 0 \<and> pos < cap")
    case False
    then show ?thesis by (simp add: digits_loop_stop [OF False])
  next
    case True
    then have t: "temp > 0" and p: "pos < cap" by simp_all
    let ?m1 = "m(buffer + pos := of_nat (48 + temp mod 10))"
    from "1.prems" have "x < buffer + (pos + 1) \<or> buffer + cap \<le> x" by auto
    then have "fst (digits_loop ?m1 buffer cap (temp div 10) (pos + 1)) x = ?m1 x"
      by (rule "1.IH" [OF True])
    moreover from "1.prems" p have "x \<noteq> buffer + pos" by auto
    ultimately show ?thesis
      by (simp add: digits_loop_step [OF t p, of m buffer])
  qed
qed

lemma digits_loop_digit:
  "pos \<le> k \<Longrightarrow> k < snd (digits_loop m buffer cap temp pos) \<Longrightarrow>
     fst (digits_loop m buffer cap temp pos) (buffer + k)
       = of_nat (48 + (temp div 10 ^ (k - pos)) mod 10)"
proof (induction m buffer cap temp pos rule: digits_loop.induct)
  case (1 m buffer cap temp pos)
  show ?case
  proof (cases "temp > 0 \<and> pos < cap")
    case False
    with "1.prems" show ?thesis by (simp add: digits_loop_stop [OF False])
  next
    case True
    then have t: "temp > 0" and p: "pos < cap" by simp_all
    let ?m1 = "m(buffer + pos := of_nat (48 + temp mod 10))"
    note step = digits_loop_step [OF t p, of m buffer]
    show ?thesis
    proof (cases "k = pos")
      case True
      have "fst (digits_loop ?m1 buffer cap (temp div 10) (pos + 1)) (buffer + pos) = ?m1 (buffer + pos)"
        by (rule digits_loop_frame) simp
      with True show ?thesis by (simp add: step)
    next
      case False
      with "1.prems" have k: "pos + 1 \<le> k" by simp
      from "1.prems" have "k < snd (digits_loop ?m1 buffer cap (temp div 10) (pos + 1))"
        by (simp only: step)
      have e: "(temp div 10) div 10 ^ (k - (pos + 1)) = temp div 10 ^ (k - pos)"
      proof -
        from k have "k - pos = Suc (k - (pos + 1))" by simp
        then show ?thesis by (simp add: div_mult2_eq)
      qed
      from k \<open>k < snd (digits_loop ?m1 buffer cap (temp div 10) (pos + 1))\<close>
      have "fst (digits_loop ?m1 buffer cap (temp div 10) (pos + 1)) (buffer + k)
          = of_nat (48 + ((temp div 10) div 10 ^ (k - (pos + 1))) mod 10)"
        by (intro "1.IH" [OF True])
      then have "fst (digits_loop ?m1 buffer cap (temp div 10) (pos + 1)) (buffer + k)
          = of_nat (48 + (temp div 10 ^ (k - pos)) mod 10)"
        by (simp only: e)
      then show ?thesis by (simp only: step)
    qed
  qed
qed

lemma reverse_loop_stop: "\<not> i < pos div 2 \<Longrightarrow> reverse_loop m buffer pos i = m"
  by (subst reverse_loop.simps [of m buffer pos i]) (simp only: if_False)

lemma reverse_loop_step:
  "i < pos div 2 \<Longrightarrow>
     reverse_loop m buffer pos i
       = reverse_loop
           ((m(buffer + i := m (buffer + (pos - 1 - i))))(buffer + (pos - 1 - i) := m (buffer + i)))
           buffer pos (i + 1)"
  by (subst reverse_loop.simps [of m buffer pos i]) (simp only: if_True Let_def)

lemma reverse_loop_frame:
  "x < buffer \<or> buffer + pos \<le> x \<Longrightarrow> reverse_loop m buffer pos i x = m x"
proof (induction m buffer pos i rule: reverse_loop.induct)
  case (1 m buffer pos i)
  show ?case
  proof (cases "i < pos div 2")
    case False
    then show ?thesis by (simp add: reverse_loop_stop [OF False])
  next
    case True
    let ?m2 = "(m(buffer + i := m (buffer + (pos - 1 - i))))(buffer + (pos - 1 - i) := m (buffer + i))"
    have "reverse_loop ?m2 buffer pos (i + 1) x = ?m2 x"
      by (rule "1.IH" [OF True refl refl refl "1.prems"])
    moreover from "1.prems" True have "x \<noteq> buffer + i" "x \<noteq> buffer + (pos - 1 - i)"
      by auto
    then have "?m2 x = m x"
      by simp
    ultimately show ?thesis
      by (simp only: reverse_loop_step [OF True, of m buffer])
  qed
qed

lemma reverse_loop_middle:
  "k < pos \<Longrightarrow>
     reverse_loop m buffer pos i (buffer + k)
       = (if k < i \<or> pos - i \<le> k then m (buffer + k) else m (buffer + (pos - 1 - k)))"
proof (induction m buffer pos i rule: reverse_loop.induct)
  case (1 m buffer pos i)
  show ?case
  proof (cases "i < pos div 2")
    case False
    have "pos - 1 - k = k" if "\<not> k < i" "\<not> pos - i \<le> k"
      using that False by arith
    then have "(if k < i \<or> pos - i \<le> k then m (buffer + k) else m (buffer + (pos - 1 - k)))
        = m (buffer + k)"
      by (cases "k < i \<or> pos - i \<le> k") simp_all
    then show ?thesis by (simp only: reverse_loop_stop [OF False])
  next
    case True
    define j where "j = pos - 1 - i"
    define m2 where "m2 = (m(buffer + i := m (buffer + j)))(buffer + j := m (buffer + i))"
    from True have ij: "i < j" and sum: "i + j + 1 = pos"
      unfolding j_def by arith+
    have m2_i: "m2 (buffer + i) = m (buffer + j)"
      using ij by (simp add: m2_def)
    have m2_j: "m2 (buffer + j) = m (buffer + i)"
      by (simp add: m2_def)
    have m2_other: "m2 (buffer + y) = m (buffer + y)" if "y \<noteq> i" "y \<noteq> j" for y
      using that by (simp add: m2_def)
    have step: "reverse_loop m buffer pos i = reverse_loop m2 buffer pos (i + 1)"
      unfolding j_def m2_def by (rule reverse_loop_step [OF True])
    have ih: "reverse_loop m2 buffer pos (i + 1) (buffer + k)
        = (if k < i + 1 \<or> pos - (i + 1) \<le> k then m2 (buffer + k)
           else m2 (buffer + (pos - 1 - k)))"
      unfolding j_def m2_def by (rule "1.IH" [OF True refl refl refl "1.prems"])
    consider "k < i" | "k = i" | "i < k" "k < j" | "k = j" | "j < k"
      by linarith
    then have "reverse_loop m2 buffer pos (i + 1) (buffer + k)
        = (if k < i \<or> pos - i \<le> k then m (buffer + k) else m (buffer + (pos - 1 - k)))"
    proof cases
      case 1
      then have c1: "k < i + 1 \<or> pos - (i + 1) \<le> k" and c2: "k < i \<or> pos - i \<le> k"
        by simp_all
      from 1 ij have "m2 (buffer + k) = m (buffer + k)"
        by (intro m2_other) simp_all
      then show ?thesis
        by (simp only: ih if_P [OF c1] if_P [OF c2])
    next
      case 2
      with ij sum have c1: "k < i + 1 \<or> pos - (i + 1) \<le> k" and c2: "\<not> (k < i \<or> pos - i \<le> k)"
        by simp_all
      from 2 sum have "pos - 1 - k = j" by simp
      with 2 m2_i have "m2 (buffer + k) = m (buffer + (pos - 1 - k))"
        by simp
      then show ?thesis
        by (simp only: ih if_P [OF c1] if_not_P [OF c2])
    next
      case 3
      with sum have c1: "\<not> (k < i + 1 \<or> pos - (i + 1) \<le> k)" and c2: "\<not> (k < i \<or> pos - i \<le> k)"
        by arith+
      from 3 sum have "pos - 1 - k \<noteq> i" "pos - 1 - k \<noteq> j"
        by arith+
      then have "m2 (buffer + (pos - 1 - k)) = m (buffer + (pos - 1 - k))"
        by (rule m2_other)
      then show ?thesis
        by (simp only: ih if_not_P [OF c1] if_not_P [OF c2])
    next
      case 4
      with ij sum have c1: "k < i + 1 \<or> pos - (i + 1) \<le> k" and c2: "\<not> (k < i \<or> pos - i \<le> k)"
        by arith+
      from 4 sum have "pos - 1 - k = i" by simp
      with 4 m2_j have "m2 (buffer + k) = m (buffer + (pos - 1 - k))"
        by simp
      then show ?thesis
        by (simp only: ih if_P [OF c1] if_not_P [OF c2])
    next
      case 5
      with ij sum have c1: "k < i + 1 \<or> pos - (i + 1) \<le> k" and c2: "k < i \<or> pos - i \<le> k"
        by arith+
      from 5 ij have "m2 (buffer + k) = m (buffer + k)"
        by (intro m2_other) simp_all
      then show ?thesis
        by (simp only: ih if_P [OF c1] if_P [OF c2])
    qed
    then show ?thesis by (simp only: step)
  qed
qed

lemma reverse_loop_reverses:
  "k < pos \<Longrightarrow> reverse_loop m buffer pos 0 (buffer + k) = m (buffer + (pos - 1 - k))"
  by (simp add: reverse_loop_middle)

section \<open>Unsigned conversion\<close>

lemma uint_to_chars_zero_cap: "uint_to_chars m buffer 0 val = (m, 0)"
  by (simp add: uint_to_chars_def)

lemma uint_to_chars_zero: "0 < cap \<Longrightarrow> uint_to_chars m buffer cap 0 = (m(buffer := of_nat 48), 1)"
  by (simp add: uint_to_chars_def)

lemma uint_to_chars_pos:
  "0 < cap \<Longrightarrow> 0 < val \<Longrightarrow>
     uint_to_chars m buffer cap val
       = (reverse_loop (fst (digits_loop m buffer cap val 0)) buffer
            (snd (digits_loop m buffer cap val 0)) 0,
          snd (digits_loop m buffer cap val 0))"
  by (simp add: uint_to_chars_def Let_def split_beta)

lemma uint_to_chars_count:
  "0 < cap \<Longrightarrow> snd (uint_to_chars m buffer cap val) = min cap (count_digits val)"
proof (cases "val = 0")
  case True
  assume "0 < cap"
  with True show ?thesis
    by (simp add: uint_to_chars_zero count_digits_def)
next
  case False
  assume "0 < cap"
  with False show ?thesis
    by (simp add: uint_to_chars_pos digits_loop_count count_digits_def)
qed

lemma uint_to_chars_frame:
  "x < buffer \<or> buffer + cap \<le> x \<Longrightarrow> fst (uint_to_chars m buffer cap val) x = m x"
proof -
  assume x: "x < buffer \<or> buffer + cap \<le> x"
  show ?thesis
  proof (cases "cap = 0")
    case True
    then show ?thesis by (simp add: uint_to_chars_zero_cap)
  next
    case cap: False
    show ?thesis
    proof (cases "val = 0")
      case True
      with cap x show ?thesis by (auto simp: uint_to_chars_zero)
    next
      case False
      let ?p = "snd (digits_loop m buffer cap val 0)"
      have "?p \<le> cap" by (simp add: digits_loop_count)
      with x have "x < buffer \<or> buffer + ?p \<le> x" by auto
      then have "reverse_loop (fst (digits_loop m buffer cap val 0)) buffer ?p 0 x
          = fst (digits_loop m buffer cap val 0) x"
        by (rule reverse_loop_frame)
      also have "\<dots> = m x"
        using x by (intro digits_loop_frame) simp
      finally show ?thesis
        using cap False by (simp add: uint_to_chars_pos)
    qed
  qed
qed

lemma uint_to_chars_digit:
  assumes "0 < cap" and "k < snd (uint_to_chars m buffer cap val)"
  shows "fst (uint_to_chars m buffer cap val) (buffer + k)
    = digit_char ((val div 10 ^ (snd (uint_to_chars m buffer cap val) - 1 - k)) mod 10)"
proof (cases "val = 0")
  case True
  with assms show ?thesis
    by (simp add: uint_to_chars_zero digit_char_def)
next
  case False
  let ?m1 = "fst (digits_loop m buffer cap val 0)"
  let ?p = "snd (digits_loop m buffer cap val 0)"
  from False assms have k: "k < ?p"
    by (simp add: uint_to_chars_pos)
  then have "reverse_loop ?m1 buffer ?p 0 (buffer + k) = ?m1 (buffer + (?p - 1 - k))"
    by (rule reverse_loop_reverses)
  also have "\<dots> = of_nat (48 + (val div 10 ^ (?p - 1 - k - 0)) mod 10)"
    using k by (intro digits_loop_digit) simp_all
  finally show ?thesis
    using False assms(1) by (simp add: uint_to_chars_pos digit_char_def)
qed

lemma written_uint_to_chars:
  assumes "0 < cap"
  shows "written (uint_to_chars m buffer cap val) buffer
    = drop (count_digits val - snd (uint_to_chars m buffer cap val)) (decimal val)"
proof (rule nth_equalityI)
  let ?u = "uint_to_chars m buffer cap val"
  let ?L = "count_digits val"
  have p: "snd ?u = min cap ?L"
    using assms by (rule uint_to_chars_count)
  show "length (written ?u buffer) = length (drop (?L - snd ?u) (decimal val))"
    using p by (simp add: written_def decimal_def length_decimal_digits)
  fix k
  assume "k < length (written ?u buffer)"
  then have k: "k < snd ?u" by (simp add: written_def)
  with p have idx: "?L - snd ?u + k < ?L" by arith
  have "written ?u buffer ! k = fst ?u (buffer + k)"
    using k by (simp add: written_def)
  also have "\<dots> = digit_char ((val div 10 ^ (snd ?u - 1 - k)) mod 10)"
    using assms k by (rule uint_to_chars_digit)
  also have "snd ?u - 1 - k = ?L - 1 - (?L - snd ?u + k)"
    using p k by arith
  also have "digit_char ((val div 10 ^ (?L - 1 - (?L - snd ?u + k))) mod 10)
      = decimal val ! (?L - snd ?u + k)"
    using idx by (simp add: decimal_def length_decimal_digits nth_decimal_digits)
  also have "\<dots> = drop (?L - snd ?u) (decimal val) ! k"
    using idx by (simp add: decimal_def length_decimal_digits)
  finally show "written ?u buffer ! k = drop (?L - snd ?u) (decimal val) ! k" .
qed

text \<open>
  C10. For every unsigned value with more decimal digits than the capacity, and a
  capacity greater than 0, \<^verbatim>\<open>uint_to_chars\<close> returns the capacity and writes exactly
  that many characters: the capacity least-significant decimal digits of the value, the
  most significant of those first. The output is a suffix of the full decimal
  representation.
\<close>

theorem uint_to_chars_truncates:
  assumes "0 < cap" and "cap < count_digits val"
  shows "snd (uint_to_chars m buffer cap val) = cap \<and>
    written (uint_to_chars m buffer cap val) buffer
      = map (\<lambda>k. digit_char ((val div 10 ^ (cap - 1 - k)) mod 10)) [0..<cap] \<and>
    written (uint_to_chars m buffer cap val) buffer = drop (count_digits val - cap) (decimal val) \<and>
    suffix (written (uint_to_chars m buffer cap val) buffer) (decimal val) \<and>
    (\<forall>x. x < buffer \<or> buffer + cap \<le> x \<longrightarrow> fst (uint_to_chars m buffer cap val) x = m x)"
proof -
  let ?u = "uint_to_chars m buffer cap val"
  have p: "snd ?u = cap"
    using assms by (simp add: uint_to_chars_count)
  have d: "written ?u buffer = drop (count_digits val - cap) (decimal val)"
    using written_uint_to_chars [OF assms(1), of m buffer val] p by simp
  have e: "written ?u buffer = map (\<lambda>k. digit_char ((val div 10 ^ (cap - 1 - k)) mod 10)) [0..<cap]"
  proof (rule nth_equalityI)
    show "length (written ?u buffer)
        = length (map (\<lambda>k. digit_char ((val div 10 ^ (cap - 1 - k)) mod 10)) [0..<cap])"
      using p by (simp add: written_def)
    fix k
    assume "k < length (written ?u buffer)"
    then have k: "k < snd ?u" by (simp add: written_def)
    then have "written ?u buffer ! k = fst ?u (buffer + k)"
      by (simp add: written_def)
    also have "\<dots> = digit_char ((val div 10 ^ (snd ?u - 1 - k)) mod 10)"
      using assms(1) k by (rule uint_to_chars_digit)
    finally show "written ?u buffer ! k
        = map (\<lambda>k. digit_char ((val div 10 ^ (cap - 1 - k)) mod 10)) [0..<cap] ! k"
      using k p by simp
  qed
  have s: "suffix (written ?u buffer) (decimal val)"
    unfolding d by (rule suffix_drop)
  have f: "\<forall>x. x < buffer \<or> buffer + cap \<le> x \<longrightarrow> fst ?u x = m x"
    by (simp add: uint_to_chars_frame)
  from p e d s f show ?thesis by blast
qed

lemma count_digits_123: "count_digits 123 = 3"
  by (simp add: count_digits_def count_digits_loop.simps)

lemma decimal_123: "(decimal 123 :: 8 word list) = [49, 50, 51]"
  by (simp add: decimal_def decimal_digits.simps digit_char_def)

theorem uint_to_chars_truncates_witness:
  "(0 :: nat) < 2 \<and> 2 < count_digits 123 \<and>
   snd (uint_to_chars (mem_of ([] :: 8 word list)) 0 2 123) = 2 \<and>
   uint_to_text 2 123 = [50, 51] \<and>
   (decimal 123 :: 8 word list) = [49, 50, 51] \<and>
   suffix (uint_to_text 2 123) (decimal 123 :: 8 word list) \<and>
   \<not> prefix (uint_to_text 2 123) (decimal 123 :: 8 word list)"
proof -
  let ?u = "uint_to_chars (mem_of ([] :: 8 word list)) 0 2 123"
  have h1: "(0 :: nat) < 2" by simp
  have h2: "2 < count_digits 123" by (simp add: count_digits_123)
  note t = uint_to_chars_truncates [OF h1 h2, of "mem_of ([] :: 8 word list)" 0]
  from t have n: "snd ?u = 2"
    by (rule conjunct1)
  from t have "written ?u 0 = drop (count_digits 123 - 2) (decimal 123)"
    by blast
  then have w: "uint_to_text 2 123 = [50, 51]"
    by (simp add: uint_to_text_def count_digits_123 decimal_123)
  from t have "suffix (written ?u 0) (decimal 123)"
    by blast
  then have s: "suffix (uint_to_text 2 123) (decimal 123 :: 8 word list)"
    by (simp add: uint_to_text_def)
  have p: "\<not> prefix (uint_to_text 2 123) (decimal 123 :: 8 word list)"
    by (simp add: w decimal_123)
  from h1 h2 n w decimal_123 s p show ?thesis
    by blast
qed

section \<open>Signed conversion\<close>

lemma span_Suc_front: "span m p (Suc n) = m p # span m (p + 1) n"
proof -
  have "[0..<Suc n] = 0 # map Suc [0..<n]"
    by (simp add: upt_conv_Cons map_Suc_upt del: upt_Suc)
  then show ?thesis
    by (simp add: span_def comp_def del: upt_Suc)
qed

lemma magnitude_ordinary:
  assumes "0 < w" and "representable w val" and "val < 0" and "val \<noteq> T_min w"
  shows "signed_result w (- val) = Some (- val)" and "to_unsigned w (- val) = nat (- val)"
proof -
  from assms have b: "- val \<le> 2 ^ (w - 1) - 1"
    unfolding representable_def T_min_def by linarith
  with assms(3) have "representable w (- val)"
    unfolding representable_def T_min_def T_max_def by linarith
  then show "signed_result w (- val) = Some (- val)"
    by (simp add: signed_result_def)
  have "(2 :: int) ^ (w - 1) \<le> 2 ^ w"
    by (rule power_increasing) simp_all
  with b have "- val < 2 ^ w"
    by linarith
  moreover from assms(3) have "0 \<le> - val"
    by simp
  ultimately have "- val mod 2 ^ w = - val"
    by (intro mod_pos_pos_trivial)
  then show "to_unsigned w (- val) = nat (- val)"
    by (simp add: to_unsigned_def)
qed

lemma magnitude_most_negative:
  assumes "0 < w"
  shows "signed_result w (T_min w + 1) = Some (T_min w + 1)"
    and "signed_result w (- (T_min w + 1)) = Some (- (T_min w + 1))"
    and "(to_unsigned w (- (T_min w + 1)) + 1) mod 2 ^ w = nat (- T_min w)"
proof -
  have pos: "(0 :: int) < 2 ^ (w - 1)" by simp
  from assms have dbl: "(2 :: int) ^ w = 2 * 2 ^ (w - 1)"
    by (cases w) simp_all
  from pos have "representable w (T_min w + 1)"
    unfolding representable_def T_min_def T_max_def by linarith
  then show "signed_result w (T_min w + 1) = Some (T_min w + 1)"
    by (simp add: signed_result_def)
  from pos have "representable w (- (T_min w + 1))"
    unfolding representable_def T_min_def T_max_def by linarith
  then show "signed_result w (- (T_min w + 1)) = Some (- (T_min w + 1))"
    by (simp add: signed_result_def)
  have "- (T_min w + 1) = 2 ^ (w - 1) - 1"
    by (simp add: T_min_def)
  moreover have "((2 :: int) ^ (w - 1) - 1) mod 2 ^ w = 2 ^ (w - 1) - 1"
  proof (rule mod_pos_pos_trivial)
    from pos show "(0 :: int) \<le> 2 ^ (w - 1) - 1" by linarith
    from pos dbl show "(2 :: int) ^ (w - 1) - 1 < 2 ^ w" by linarith
  qed
  ultimately have u: "to_unsigned w (- (T_min w + 1)) = nat (2 ^ (w - 1) - 1)"
    by (simp add: to_unsigned_def)
  have "nat (2 ^ (w - 1) - 1) + 1 = (2 :: nat) ^ (w - 1)"
    by (simp add: nat_diff_distrib nat_power_eq)
  moreover from assms have "(2 :: nat) ^ (w - 1) < 2 ^ w"
    by simp
  moreover have "nat (- T_min w) = 2 ^ (w - 1)"
    by (simp add: T_min_def nat_power_eq)
  ultimately show "(to_unsigned w (- (T_min w + 1)) + 1) mod 2 ^ w = nat (- T_min w)"
    using u by simp
qed

lemma int_to_chars_negative_eq:
  assumes "0 < w" and "representable w val" and "val < 0" and "2 \<le> cap"
  shows "int_to_chars w m buffer cap val
    = Some (fst (uint_to_chars (m(buffer := of_nat 45)) (buffer + 1) (cap - 1) (nat (- val))),
        1 + snd (uint_to_chars (m(buffer := of_nat 45)) (buffer + 1) (cap - 1) (nat (- val))))"
proof (cases "val = T_min w")
  case True
  with assms(3,4) magnitude_most_negative [OF assms(1)] show ?thesis
    by (simp add: int_to_chars_def Let_def split_beta)
next
  case False
  with assms(3,4) magnitude_ordinary [OF assms(1,2,3) False] show ?thesis
    by (simp add: int_to_chars_def Let_def split_beta)
qed

text \<open>
  C7, as stated: for every negative value and every capacity of at least 2, the
  conversion writes \<^verbatim>\<open>'-'\<close> followed by the base-10 digits of the magnitude. The value
  \<open>-123\<close> with capacity 2 refutes it: the output is \<^verbatim>\<open>"-3"\<close>, not \<^verbatim>\<open>"-123"\<close>.
\<close>

theorem int_to_chars_negative_counterexample:
  "representable 32 (- 123) \<and> (- 123 :: int) < 0 \<and> (2 :: nat) \<ge> 2 \<and>
   int_to_text 32 2 (- 123) = Some [45, 51] \<and>
   (of_nat 45 # decimal 123 :: 8 word list) = [45, 49, 50, 51]"
proof -
  have r: "representable 32 (- 123)"
    by (simp add: representable_def T_min_def T_max_def)
  have t: "int_to_text 32 2 (- 123) = Some [45, 51]"
    by (simp add: int_to_text_def int_to_chars_def T_min_def T_max_def signed_result_def
        representable_def to_unsigned_def uint_to_chars_def digits_loop.simps
        reverse_loop.simps written_def span_def upt_rec Let_def)
  from r t decimal_123 show ?thesis by simp
qed

text \<open>
  C7, amended. For every negative value \<open>val\<close> of a signed type and every capacity of
  at least 2, the conversion returns without signed overflow (the most negative value
  included, whose magnitude is computed as the unsigned \<^verbatim>\<open>-(value + 1)\<close> plus 1); it
  writes \<^verbatim>\<open>'-'\<close> and then what \<^verbatim>\<open>uint_to_chars\<close> writes for the magnitude in the
  remaining \<open>cap - 1\<close> units, and returns 1 plus that count. The digits written are all
  the base-10 digits of the magnitude when there are fewer of them than \<open>cap\<close>. For a
  negative value and a capacity below 2 it writes nothing and returns 0.
\<close>

theorem int_to_chars_negative:
  fixes m :: "('a::len) word mem"
  defines "u \<equiv> \<lambda>m buffer cap val.
    uint_to_chars (m(buffer := of_nat 45)) (buffer + 1) (cap - 1) (nat (- val))"
  assumes "0 < w" and "representable w val" and "val < 0"
  shows "(2 \<le> cap \<longrightarrow>
      int_to_chars w m buffer cap val
        = Some (fst (u m buffer cap val), 1 + snd (u m buffer cap val)) \<and>
      snd (u m buffer cap val) = min (cap - 1) (count_digits (nat (- val))) \<and>
      written (fst (u m buffer cap val), 1 + snd (u m buffer cap val)) buffer
        = of_nat 45 # drop (count_digits (nat (- val)) - snd (u m buffer cap val))
            (decimal (nat (- val))) \<and>
      (count_digits (nat (- val)) < cap \<longrightarrow>
        written (fst (u m buffer cap val), 1 + snd (u m buffer cap val)) buffer
          = of_nat 45 # decimal (nat (- val)))) \<and>
    (cap < 2 \<longrightarrow> int_to_chars w m buffer cap val = Some (m, 0))"
proof (intro conjI impI)
  assume "cap < 2"
  with assms(4) show "int_to_chars w m buffer cap val = Some (m, 0)"
    by (simp add: int_to_chars_def)
next
  assume cap: "2 \<le> cap"
  let ?u = "u m buffer cap val"
  let ?n = "nat (- val)"
  from cap have c1: "0 < cap - 1" by simp
  show "int_to_chars w m buffer cap val = Some (fst ?u, 1 + snd ?u)"
    unfolding u_def by (rule int_to_chars_negative_eq [OF assms(2,3,4) cap])
  show n: "snd ?u = min (cap - 1) (count_digits ?n)"
    unfolding u_def by (rule uint_to_chars_count [OF c1])
  have "fst ?u buffer = (m(buffer := of_nat 45)) buffer"
    unfolding u_def by (rule uint_to_chars_frame) simp
  then have minus: "fst ?u buffer = of_nat 45"
    by simp
  have "written ?u (buffer + 1) = drop (count_digits ?n - snd ?u) (decimal ?n)"
    unfolding u_def by (rule written_uint_to_chars [OF c1])
  then show w: "written (fst ?u, 1 + snd ?u) buffer
      = of_nat 45 # drop (count_digits ?n - snd ?u) (decimal ?n)"
    using minus by (simp add: written_def span_Suc_front)
  assume "count_digits ?n < cap"
  with n have "count_digits ?n - snd ?u = 0"
    by simp
  with w show "written (fst ?u, 1 + snd ?u) buffer = of_nat 45 # decimal ?n"
    by simp
qed

theorem int_to_chars_negative_witness:
  "(0 :: nat) < 8 \<and> representable 8 (- 128) \<and> (- 128 :: int) < 0 \<and> - 128 = T_min 8 \<and>
   int_to_text 8 5 (- 128) = Some [45, 49, 50, 56] \<and>
   int_to_text 8 3 (- 128) = Some [45, 50, 56] \<and>
   int_to_text 8 1 (- 128) = Some []"
proof -
  let ?m = "mem_of ([] :: 8 word list)"
  have h1: "(0 :: nat) < 8" by simp
  have h2: "representable 8 (- 128)"
    by (simp add: representable_def T_min_def T_max_def)
  have h3: "(- 128 :: int) < 0" by simp
  have h4: "- 128 = T_min 8"
    by (simp add: T_min_def)
  have cd: "count_digits 128 = 3"
    by (simp add: count_digits_def count_digits_loop.simps)
  have dec: "(decimal 128 :: 8 word list) = [49, 50, 56]"
    by (simp add: decimal_def decimal_digits.simps digit_char_def)
  note t5 = int_to_chars_negative [OF h1 h2 h3, where m = ?m and buffer = 0 and cap = 5]
  note t3 = int_to_chars_negative [OF h1 h2 h3, where m = ?m and buffer = 0 and cap = 3]
  note t1 = int_to_chars_negative [OF h1 h2 h3, where m = ?m and buffer = 0 and cap = 1]
  let ?u5 = "uint_to_chars (?m(0 := of_nat 45)) (0 + 1) (5 - 1) (nat (- (- 128)))"
  have c5: "(2 :: nat) \<le> 5" by simp
  have d5: "count_digits (nat (- (- 128))) < 5" by (simp add: cd)
  from t5 c5 have a5: "int_to_chars 8 ?m 0 5 (- 128) = Some (fst ?u5, 1 + snd ?u5)"
    by blast
  from t5 c5 d5 have "written (fst ?u5, 1 + snd ?u5) 0 = of_nat 45 # decimal (nat (- (- 128)))"
    by blast
  then have b5: "written (fst ?u5, 1 + snd ?u5) 0 = [45, 49, 50, 56]"
    by (simp add: dec)
  have e5: "int_to_text 8 5 (- 128) = Some [45, 49, 50, 56]"
    unfolding int_to_text_def a5 using b5 by simp
  let ?u3 = "uint_to_chars (?m(0 := of_nat 45)) (0 + 1) (3 - 1) (nat (- (- 128)))"
  have c3: "(2 :: nat) \<le> 3" by simp
  from t3 c3 have a3: "int_to_chars 8 ?m 0 3 (- 128) = Some (fst ?u3, 1 + snd ?u3)"
    by blast
  from t3 c3 have n3: "snd ?u3 = min (3 - 1) (count_digits (nat (- (- 128))))"
    by blast
  from t3 c3 have "written (fst ?u3, 1 + snd ?u3) 0
      = of_nat 45 # drop (count_digits (nat (- (- 128))) - snd ?u3) (decimal (nat (- (- 128))))"
    by blast
  then have b3: "written (fst ?u3, 1 + snd ?u3) 0 = [45, 50, 56]"
    unfolding n3 by (simp add: cd dec)
  have e3: "int_to_text 8 3 (- 128) = Some [45, 50, 56]"
    unfolding int_to_text_def a3 using b3 by simp
  have c1: "(1 :: nat) < 2" by simp
  from t1 c1 have a1: "int_to_chars 8 ?m 0 1 (- 128) = Some (?m, 0)"
    by blast
  have e1: "int_to_text 8 1 (- 128) = Some []"
    unfolding int_to_text_def a1 by (simp add: written_def span_def)
  from h1 h2 h3 h4 e5 e3 e1 show ?thesis
    by blast
qed

section \<open>Concatenation never truncates\<close>

lemma span_append: "span m p (k + n) = span m p k @ span m (p + k) n"
proof (rule nth_equalityI)
  show "length (span m p (k + n)) = length (span m p k @ span m (p + k) n)"
    by simp
  fix i
  assume "i < length (span m p (k + n))"
  then have i: "i < k + n" by simp
  show "span m p (k + n) ! i = (span m p k @ span m (p + k) n) ! i"
  proof (cases "i < k")
    case True
    with i show ?thesis by (simp add: nth_append)
  next
    case False
    with i have "i - k < n" and "p + k + (i - k) = p + i" by simp_all
    with False i show ?thesis by (simp add: nth_append)
  qed
qed

lemma take_span: "take k (span m p n) = span m p (min k n)"
  by (rule nth_equalityI) simp_all

lemma span_cong: "(\<And>k. k < n \<Longrightarrow> m (p + k) = m' (p + k)) \<Longrightarrow> span m p n = span m' p n"
  by (simp add: span_eq_iff)

lemma store_span_in:
  "p \<le> i \<Longrightarrow> i < p + length xs \<Longrightarrow> store_span m p xs i = xs ! (i - p)"
  by (simp add: store_span_def)

lemma store_span_out:
  "i < p \<or> p + length xs \<le> i \<Longrightarrow> store_span m p xs i = m i"
  by (auto simp: store_span_def)

lemma span_store_span: "span (store_span m p xs) p (length xs) = xs"
  by (rule nth_equalityI) (simp_all add: store_span_in)

lemma append_string_eq:
  "append_string m s other
     = ((store_span m (data s + len s)
          (span m (data other) (min (len other) (capacity s - len s))))
          (data s + len s + min (len other) (capacity s - len s) := 0),
        s\<lparr>len := len s + min (len other) (capacity s - len s)\<rparr>)"
  by (simp add: append_string_def Let_def)

lemma append_string_fields:
  "len (snd (append_string m s other)) = len s + min (len other) (capacity s - len s)"
  "data (snd (append_string m s other)) = data s"
  "capacity (snd (append_string m s other)) = capacity s"
  by (simp_all add: append_string_eq)

lemma append_string_frame:
  "x < data s + len s \<or> data s + len s + min (len other) (capacity s - len s) < x
     \<Longrightarrow> fst (append_string m s other) x = m x"
  by (auto simp: append_string_eq store_span_out)

lemma append_string_terminator:
  "fst (append_string m s other) (data s + len (snd (append_string m s other))) = 0"
  by (simp add: append_string_eq add.assoc)

lemma append_string_content:
  "content (fst (append_string m s other)) (snd (append_string m s other))
     = content m s @ take (capacity s - len s) (content m other)"
proof -
  define n where "n = min (len other) (capacity s - len s)"
  define xs where "xs = span m (data other) n"
  define m1 where "m1 = store_span m (data s + len s) xs"
  define m2 where "m2 = m1(data s + len s + n := 0)"
  have lxs: "length xs = n"
    by (simp add: xs_def)
  have ap: "append_string m s other = (m2, s\<lparr>len := len s + n\<rparr>)"
    by (simp add: append_string_eq m2_def m1_def xs_def n_def)
  have old: "span m2 (data s) (len s) = span m (data s) (len s)"
  proof (rule span_cong)
    fix k
    assume "k < len s"
    then show "m2 (data s + k) = m (data s + k)"
      by (simp add: m2_def m1_def store_span_out)
  qed
  have "span m2 (data s + len s) n = span m1 (data s + len s) n"
  proof (rule span_cong)
    fix k
    assume "k < n"
    then show "m2 (data s + len s + k) = m1 (data s + len s + k)"
      by (simp add: m2_def)
  qed
  also have "\<dots> = xs"
    using span_store_span [of m "data s + len s" xs] by (simp add: m1_def lxs)
  finally have new: "span m2 (data s + len s) n = xs" .
  have "content (fst (append_string m s other)) (snd (append_string m s other))
      = span m2 (data s) (len s + n)"
    by (simp add: ap content_def)
  also have "\<dots> = span m (data s) (len s) @ xs"
    by (simp only: span_append old new)
  also have "xs = take (capacity s - len s) (content m other)"
    by (simp add: xs_def n_def content_def take_span min.commute)
  finally show ?thesis
    by (simp add: content_def)
qed

lemma content_unchanged:
  "(\<And>x. data s \<le> x \<Longrightarrow> x < data s + len s \<Longrightarrow> m' x = m x) \<Longrightarrow> content m' s = content m s"
  unfolding content_def by (rule span_cong) simp

lemma concat_strings_eq:
  "concat_strings m r a b
     = append_string
         (fst (append_string (m(r := 0)) \<lparr>data = r, capacity = capacity a + capacity b, len = 0\<rparr> a))
         (snd (append_string (m(r := 0)) \<lparr>data = r, capacity = capacity a + capacity b, len = 0\<rparr> a))
         b"
  by (simp add: concat_strings_def default_string_def Let_def split_beta)

text \<open>
  C2. For containers \<open>a\<close> of capacity \<open>N1\<close> and \<open>b\<close> of capacity \<open>N2\<close>, \<^verbatim>\<open>concat(a, b)\<close>
  is a new container of capacity \<open>N1 + N2\<close> whose length is \<open>a.length + b.length\<close> and
  whose content is the content of \<open>a\<close> followed by the content of \<open>b\<close>: nothing is
  truncated, whatever the lengths. The containers satisfy \<open>length \<le> capacity\<close>, and the
  buffer of the new container does not overlap the content of \<open>a\<close> or \<open>b\<close>.
\<close>

theorem concat_never_truncates:
  fixes m :: "('c::zero) mem"
  assumes la: "len a \<le> capacity a" and lb: "len b \<le> capacity b"
    and da: "data a + len a \<le> r \<or> r + (capacity a + capacity b + 1) \<le> data a"
    and db: "data b + len b \<le> r \<or> r + (capacity a + capacity b + 1) \<le> data b"
  shows "capacity (snd (concat_strings m r a b)) = capacity a + capacity b \<and>
    len (snd (concat_strings m r a b)) = len a + len b \<and>
    content (fst (concat_strings m r a b)) (snd (concat_strings m r a b))
      = content m a @ content m b \<and>
    data (snd (concat_strings m r a b)) = r \<and>
    fst (concat_strings m r a b) (r + (len a + len b)) = 0 \<and>
    content (fst (concat_strings m r a b)) a = content m a \<and>
    content (fst (concat_strings m r a b)) b = content m b"
proof -
  define m0 where "m0 = m(r := 0)"
  define R where "R = \<lparr>data = r, capacity = capacity a + capacity b, len = 0\<rparr>"
  define m1 where "m1 = fst (append_string m0 R a)"
  define R1 where "R1 = snd (append_string m0 R a)"
  define m2 where "m2 = fst (append_string m1 R1 b)"
  define R2 where "R2 = snd (append_string m1 R1 b)"
  have cc: "concat_strings m r a b = (m2, R2)"
    by (simp add: concat_strings_eq m2_def R2_def m1_def R1_def m0_def R_def)
  have R1: "len R1 = len a" "data R1 = r" "capacity R1 = capacity a + capacity b"
    using la by (simp_all add: R1_def append_string_fields R_def)
  have R2: "len R2 = len a + len b" "data R2 = r" "capacity R2 = capacity a + capacity b"
    using la lb by (simp_all add: R2_def append_string_fields R1)
  have m0_a: "m0 x = m x" if "data a \<le> x" "x < data a + len a" for x
    using that da by (auto simp: m0_def)
  have m0_b: "m0 x = m x" if "data b \<le> x" "x < data b + len b" for x
    using that db by (auto simp: m0_def)
  have m1_a: "m1 x = m0 x" if "data a \<le> x" "x < data a + len a" for x
    unfolding m1_def using that da la by (intro append_string_frame) (auto simp: R_def)
  have m1_b: "m1 x = m0 x" if "data b \<le> x" "x < data b + len b" for x
    unfolding m1_def using that db la by (intro append_string_frame) (auto simp: R_def)
  have m2_a: "m2 x = m1 x" if "data a \<le> x" "x < data a + len a" for x
    unfolding m2_def using that da la lb by (intro append_string_frame) (auto simp: R1)
  have m2_b: "m2 x = m1 x" if "data b \<le> x" "x < data b + len b" for x
    unfolding m2_def using that db la lb by (intro append_string_frame) (auto simp: R1)
  have a0: "content m0 a = content m a"
    by (rule content_unchanged) (rule m0_a)
  have b1: "content m1 b = content m b"
    by (rule content_unchanged) (simp add: m1_b m0_b)
  have a2: "content m2 a = content m a"
    by (rule content_unchanged) (simp add: m2_a m1_a m0_a)
  have b2: "content m2 b = content m b"
    by (rule content_unchanged) (simp add: m2_b m1_b m0_b)
  have "content m1 R1 = content m0 R @ take (capacity R - len R) (content m0 a)"
    unfolding m1_def R1_def by (rule append_string_content)
  also have "content m0 R = []"
    by (simp add: content_def R_def span_def)
  also have "take (capacity R - len R) (content m0 a) = content m0 a"
    using la by (simp add: R_def content_def)
  finally have c1: "content m1 R1 = content m a"
    by (simp add: a0)
  have "content m2 R2 = content m1 R1 @ take (capacity R1 - len R1) (content m1 b)"
    unfolding m2_def R2_def by (rule append_string_content)
  also have "take (capacity R1 - len R1) (content m1 b) = content m1 b"
    using la lb by (simp add: R1 content_def)
  finally have c2: "content m2 R2 = content m a @ content m b"
    by (simp add: c1 b1)
  have "m2 (data R1 + len R2) = 0"
    unfolding m2_def R2_def by (rule append_string_terminator)
  then have t: "m2 (r + (len a + len b)) = 0"
    by (simp add: R1 R2)
  from R2 c2 t a2 b2 show ?thesis
    by (simp add: cc)
qed

theorem concat_never_truncates_witness:
  "capacity (snd (concat_strings
      (mem_of [72, 101, 108, 108, 111, 0, 87, 111, 114, 108, 100, 0 :: 8 word]) 12
      \<lparr>data = 0, capacity = 5, len = 5\<rparr> \<lparr>data = 6, capacity = 5, len = 5\<rparr>)) = 10 \<and>
   len (snd (concat_strings
      (mem_of [72, 101, 108, 108, 111, 0, 87, 111, 114, 108, 100, 0 :: 8 word]) 12
      \<lparr>data = 0, capacity = 5, len = 5\<rparr> \<lparr>data = 6, capacity = 5, len = 5\<rparr>)) = 10 \<and>
   content
     (fst (concat_strings
        (mem_of [72, 101, 108, 108, 111, 0, 87, 111, 114, 108, 100, 0 :: 8 word]) 12
        \<lparr>data = 0, capacity = 5, len = 5\<rparr> \<lparr>data = 6, capacity = 5, len = 5\<rparr>))
     (snd (concat_strings
        (mem_of [72, 101, 108, 108, 111, 0, 87, 111, 114, 108, 100, 0 :: 8 word]) 12
        \<lparr>data = 0, capacity = 5, len = 5\<rparr> \<lparr>data = 6, capacity = 5, len = 5\<rparr>))
     = [72, 101, 108, 108, 111, 87, 111, 114, 108, 100]"
proof -
  let ?m = "mem_of [72, 101, 108, 108, 111, 0, 87, 111, 114, 108, 100, 0 :: 8 word]"
  let ?a = "\<lparr>data = 0, capacity = 5, len = 5\<rparr>"
  let ?b = "\<lparr>data = 6, capacity = 5, len = 5\<rparr>"
  let ?c = "concat_strings ?m 12 ?a ?b"
  have h1: "len ?a \<le> capacity ?a" by simp
  have h2: "len ?b \<le> capacity ?b" by simp
  have h3: "data ?a + len ?a \<le> 12 \<or> 12 + (capacity ?a + capacity ?b + 1) \<le> data ?a" by simp
  have h4: "data ?b + len ?b \<le> 12 \<or> 12 + (capacity ?a + capacity ?b + 1) \<le> data ?b" by simp
  have ca: "content ?m ?a = [72, 101, 108, 108, 111]"
    by (simp add: content_def span_def mem_of_def upt_rec)
  have cb: "content ?m ?b = [87, 111, 114, 108, 100]"
    by (simp add: content_def span_def mem_of_def upt_rec)
  note t = concat_never_truncates [OF h1 h2 h3 h4, of ?m]
  from t have "capacity (snd ?c) = capacity ?a + capacity ?b"
    by blast
  then have e1: "capacity (snd ?c) = 10"
    by simp
  from t have "len (snd ?c) = len ?a + len ?b"
    by blast
  then have e2: "len (snd ?c) = 10"
    by simp
  from t have "content (fst ?c) (snd ?c) = content ?m ?a @ content ?m ?b"
    by blast
  then have e3: "content (fst ?c) (snd ?c) = [72, 101, 108, 108, 111, 87, 111, 114, 108, 100]"
    by (simp only: ca cb append.simps)
  from e1 e2 e3 show ?thesis
    by blast
qed

end
